theory Spec2Isabelle
  imports Main "HOL-Library.AList"
begin

section \<open>JavaScript values held in a store\<close>

text \<open>
  The state tree of a store is a JSON-like value: primitives, arrays, and plain objects.
  A plain object is the list of its own enumerable properties in insertion order.
\<close>

datatype jsval =
    JUndefined
  | JNull
  | JBool bool
  | JNum int
  | JStr string
  | JArr "jsval list"
  | JObj "(string \<times> jsval) list"

text \<open>\<^verbatim>\<open>value instanceof Object\<close> and \<^verbatim>\<open>value instanceof Array\<close> on these values.\<close>

fun instanceof_Object :: "jsval \<Rightarrow> bool" where
  "instanceof_Object (JArr _) = True"
| "instanceof_Object (JObj _) = True"
| "instanceof_Object _ = False"

fun instanceof_Array :: "jsval \<Rightarrow> bool" where
  "instanceof_Array (JArr _) = True"
| "instanceof_Array _ = False"

text \<open>
  \<^verbatim>\<open>
  export function isObject(value: any): value is Record<string, any> {
    return value instanceof Object && !(value instanceof Array);
  }
  \<close>
\<close>

definition isObject :: "jsval \<Rightarrow> bool" where
  "isObject v = (instanceof_Object v \<and> \<not> instanceof_Array v)"

subsection \<open>Own properties, property assignment, \<^verbatim>\<open>Object.assign\<close> and spread\<close>

text \<open>Decimal rendering of an array index, the property name of an array element.\<close>

fun show_nat :: "nat \<Rightarrow> string" where
  "show_nat n =
     (if n < 10 then [''0123456789'' ! n]
      else show_nat (n div 10) @ [''0123456789'' ! (n mod 10)])"

declare show_nat.simps [simp del]

text \<open>
  The own enumerable properties that \<^verbatim>\<open>Object.assign\<close> and object spread copy from a
  source: the properties of a plain object, the indexed elements of an array, the indexed
  characters of a string, and nothing for the other primitives, \<^verbatim>\<open>null\<close> and
  \<^verbatim>\<open>undefined\<close>.
\<close>

fun own_props :: "jsval \<Rightarrow> (string \<times> jsval) list" where
  "own_props (JObj kvs) = kvs"
| "own_props (JArr xs) = zip (map show_nat [0..<length xs]) xs"
| "own_props (JStr s) = zip (map show_nat [0..<length s]) (map (\<lambda>c. JStr [c]) s)"
| "own_props _ = []"

text \<open>
  \<^verbatim>\<open>Object.assign(target, source)\<close> on property lists: each property of the source, in
  order, is written to the target; a property the target has keeps its position, a new
  one is appended (\<open>AList.update\<close>).
\<close>

definition object_assign :: "(string \<times> 'v) list \<Rightarrow> (string \<times> 'v) list \<Rightarrow> (string \<times> 'v) list" where
  "object_assign target source = foldl (\<lambda>acc (k, v). AList.update k v acc) target source"

text \<open>The object literal \<^verbatim>\<open>{ ...a, ...b }\<close>.\<close>

definition spread2 :: "(string \<times> 'v) list \<Rightarrow> (string \<times> 'v) list \<Rightarrow> (string \<times> 'v) list" where
  "spread2 a b = object_assign (object_assign [] a) b"

text \<open>
  \<^verbatim>\<open>Object.assign(draft, state)\<close> where the target is a state value: a plain object
  receives the source's own properties. A target that is not a plain object stays as it
  is: a primitive cannot hold properties, and a draft of an array takes no named ones.
\<close>

fun Object_assign :: "jsval \<Rightarrow> jsval \<Rightarrow> jsval" where
  "Object_assign (JObj kvs) source = JObj (object_assign kvs (own_props source))"
| "Object_assign target source = target"

section \<open>The underlying store instances\<close>

text \<open>
  Every call of \<^verbatim>\<open>createInnerStore\<close> creates one instance of the underlying reactive
  store (\<^verbatim>\<open>createVanillaStore\<close> behind the middlewares). The instances that exist are
  kept in a list; an instance is named by its index, and the entry is its current state.
\<close>

type_synonym heap = "jsval list"

text \<open>\<^verbatim>\<open>immerStoreApi.getState()\<close> of instance \<open>i\<close>.\<close>

definition getState :: "heap \<Rightarrow> nat \<Rightarrow> jsval" where
  "getState h i = (if i < length h then h ! i else JUndefined)"

text \<open>
  The argument \<^verbatim>\<open>fnOrNewValue\<close> of \<^verbatim>\<open>setState\<close>: a new value, or a function on the
  draft of the current state. The function is represented by the state it leaves behind.
\<close>

datatype setarg = NewValue jsval | Recipe "jsval \<Rightarrow> jsval"

text \<open>
  Modelled from the spec: \<^verbatim>\<open>./middlewares/immer.middleware\<close> is not among the sources.
  The spec calls it the immutable update of the state tree owned by the instance: a new
  value replaces the state, a function is run on a draft of the current state and its
  outcome becomes the state. The action name only labels the update for the devtools.
\<close>

definition immer_setState :: "nat \<Rightarrow> setarg \<Rightarrow> heap \<Rightarrow> heap" where
  "immer_setState i a h =
     (if i < length h
      then h[i := (case a of NewValue v \<Rightarrow> v | Recipe f \<Rightarrow> f (h ! i))]
      else h)"

subsection \<open>The root accessors built by \<^verbatim>\<open>createInnerStore\<close>\<close>

text \<open>
  \<^verbatim>\<open>
  const setState = (fnOrNewValue, actionName) => {
    immerStoreApi.setState(fnOrNewValue, actionName || `@@${name}/setState`);
  };
  \<close>
\<close>

definition setState :: "nat \<Rightarrow> setarg \<Rightarrow> heap \<Rightarrow> heap" where
  "setState i fnOrNewValue h = immer_setState i fnOrNewValue h"

text \<open>
  \<^verbatim>\<open>
  const assign = (state, actionName) => {
    immerStoreApi.setState(
      isObject(initialState)
        ? (draft) => { Object.assign(draft, state); }
        : state,
      actionName || `@@${name}/assign`);
  };
  \<close>
  \<open>initialState\<close> is the argument of \<^verbatim>\<open>createInnerStore\<close> captured by the closure.
\<close>

definition assign :: "nat \<Rightarrow> jsval \<Rightarrow> jsval \<Rightarrow> heap \<Rightarrow> heap" where
  "assign i initialState state h =
     immer_setState i
       (if isObject initialState then Recipe (\<lambda>draft. Object_assign draft state)
        else NewValue state) h"

section \<open>Accessor nodes\<close>

text \<open>
  An accessor node is bound to one instance and one path of property names. It always
  offers \<^verbatim>\<open>get\<close>, \<^verbatim>\<open>use\<close> and \<^verbatim>\<open>set\<close>; \<open>assignable\<close> says whether it offers
  \<^verbatim>\<open>assign\<close>. Its children are the nodes of the paths one property longer.
\<close>

datatype node =
  Node (inst: nat) (path: "string list") (assignable: bool) (children: "(string \<times> node) list")

text \<open>
  Modelled from the spec: the code of the accessor nodes is not among the sources. An
  accessor is bound to one path within the state tree; this reads the value at a path. A
  property that is missing, or looked for in a value that is not an object, reads as
  \<^verbatim>\<open>undefined\<close>.
\<close>

fun get_in :: "jsval \<Rightarrow> string list \<Rightarrow> jsval" where
  "get_in v [] = v"
| "get_in (JObj kvs) (k # ks) =
     (case map_of kvs k of Some v \<Rightarrow> get_in v ks | None \<Rightarrow> JUndefined)"
| "get_in _ (k # ks) = JUndefined"

text \<open>
  Modelled from the spec: the code of the accessor nodes is not among the sources. The
  update of the value at a path that \<^verbatim>\<open>set\<close> and \<^verbatim>\<open>assign\<close> of an accessor
  issue: the objects along the path get the rewritten property, and a value on the path
  that is not an object is left as it is.
\<close>

fun update_in :: "string list \<Rightarrow> (jsval \<Rightarrow> jsval) \<Rightarrow> jsval \<Rightarrow> jsval" where
  "update_in [] f v = f v"
| "update_in (k # ks) f (JObj kvs) =
     JObj (AList.update k
            (update_in ks f (case map_of kvs k of Some v \<Rightarrow> v | None \<Rightarrow> JUndefined)) kvs)"
| "update_in (k # ks) f v = v"

text \<open>
  Modelled from the spec: \<^verbatim>\<open>./utils/generate-inner-selectors\<close> is not among the
  sources. The spec: a recursive traversal of the state shape that produces, for every
  nested path, a bound accessor object; one accessor node per reachable path in the state
  tree, exposing \<^verbatim>\<open>get()\<close>, \<^verbatim>\<open>use()\<close>, \<^verbatim>\<open>set(value | updaterFn)\<close> and
  \<^verbatim>\<open>assign(partial)\<close> (object paths only). The traversal descends into plain objects.
\<close>

fun createNode :: "nat \<Rightarrow> string list \<Rightarrow> jsval \<Rightarrow> node" where
  "createNode i p (JObj kvs) =
     Node i p True (map (\<lambda>(k, v). (k, createNode i (p @ [k]) v)) kvs)"
| "createNode i p v = Node i p False []"

text \<open>
  Modelled from the spec: \<^verbatim>\<open>generateInnerSelectors({ immerStore, useStore, storeName })\<close>
  walks the state of the instance it is given, once, and returns the accessor of every
  top-level property.
\<close>

definition generateInnerSelectors :: "nat \<Rightarrow> heap \<Rightarrow> (string \<times> node) list" where
  "generateInnerSelectors i h =
     (case getState h i of
        JObj kvs \<Rightarrow> map (\<lambda>(k, v). (k, createNode i [k] v)) kvs
      | _ \<Rightarrow> [])"

text \<open>
  Modelled from the spec: \<^verbatim>\<open>get()\<close> of a node reads the value at the node's path in
  the current state of its instance.
\<close>

definition node_get :: "node \<Rightarrow> heap \<Rightarrow> jsval" where
  "node_get n h = get_in (getState h (inst n)) (path n)"

text \<open>
  Modelled from the spec: \<^verbatim>\<open>use()\<close> of a node reads the same value and subscribes the
  component; the subscription is not modelled.
\<close>

definition node_use :: "node \<Rightarrow> heap \<Rightarrow> jsval" where
  "node_use n h = node_get n h"

text \<open>
  Modelled from the spec: \<^verbatim>\<open>set(value | updaterFn)\<close> of a node replaces the value at
  the path by the value, or by the result of the updater on the previous value, through
  the setState of the instance.
\<close>

definition node_set :: "node \<Rightarrow> setarg \<Rightarrow> heap \<Rightarrow> heap" where
  "node_set n a h =
     immer_setState (inst n)
       (Recipe (update_in (path n)
          (\<lambda>prev. case a of NewValue v \<Rightarrow> v | Recipe f \<Rightarrow> f prev))) h"

text \<open>
  Modelled from the spec: \<^verbatim>\<open>assign(partial)\<close> of a node merges the partial into the
  value at the path, through the setState of the instance. A node that does not offer
  \<^verbatim>\<open>assign\<close> has no such method to call (\<open>None\<close>).
\<close>

definition node_assign :: "node \<Rightarrow> jsval \<Rightarrow> heap \<Rightarrow> heap option" where
  "node_assign n partial h =
     (if assignable n
      then Some (immer_setState (inst n)
                   (Recipe (update_in (path n) (\<lambda>prev. Object_assign prev partial))) h)
      else None)"

text \<open>
  Modelled from the spec: the method names a node offers, \<^verbatim>\<open>assign\<close> on object paths
  only.
\<close>

definition node_methods :: "node \<Rightarrow> string set" where
  "node_methods n =
     {''get'', ''use'', ''set''} \<union> (if assignable n then {''assign''} else {})"

text \<open>The node reached from a node by following property names: \<^verbatim>\<open>node.k1.k2\<close>.\<close>

fun descend :: "node \<Rightarrow> string list \<Rightarrow> node option" where
  "descend n [] = Some n"
| "descend n (k # ks) =
     (case map_of (children n) k of Some c \<Rightarrow> descend c ks | None \<Rightarrow> None)"

section \<open>The store object\<close>

text \<open>
  The properties of a store object: its name, the handle of its instance, the four root
  accessors (closures over the instance; \<^verbatim>\<open>assign\<close> also over the initial state), the
  accessor nodes, what the extension builders add (read-only computed accessors, actions,
  other values), and the three members of the global api.
\<close>

datatype member =
    MStoreName string
  | MImmerStoreApi nat
  | MSet nat
  | MGet nat
  | MUse nat
  | MAssign nat jsval
  | MNode node
  | MComputed "heap \<Rightarrow> jsval"
  | MAction "heap \<Rightarrow> heap"
  | MValue jsval
  | MExtend
  | MLocalProvider
  | MUseLocalStore

type_synonym store = "(string \<times> member) list"

text \<open>
  A builder registered through \<^verbatim>\<open>extend\<close>: a function from a store object to a record
  of new properties. When it runs it may read the state of the instances.
\<close>

type_synonym builder = "store \<Rightarrow> heap \<Rightarrow> (string \<times> member) list"

text \<open>A node with all the nodes below it, and all the accessor nodes of a store object.\<close>

fun all_nodes :: "node \<Rightarrow> node list" where
  "all_nodes (Node i p a cs) = Node i p a cs # concat (map (\<lambda>(k, c). all_nodes c) cs)"

definition store_nodes :: "store \<Rightarrow> node list" where
  "store_nodes s = concat (map (\<lambda>(k, m). case m of MNode n \<Rightarrow> all_nodes n | _ \<Rightarrow> []) s)"

text \<open>
  A node and all nodes below it are accessors of instance \<open>i\<close>; a member of a store
  object that is an accessor is one of instance \<open>i\<close>.
\<close>

fun nodeBound :: "nat \<Rightarrow> node \<Rightarrow> bool" where
  "nodeBound i (Node j p a cs) = (j = i \<and> (\<forall>c \<in> snd ` set cs. nodeBound i c))"

definition boundTo :: "nat \<Rightarrow> member \<Rightarrow> bool" where
  "boundTo i m =
     (case m of
        MImmerStoreApi j \<Rightarrow> j = i
      | MSet j \<Rightarrow> j = i
      | MGet j \<Rightarrow> j = i
      | MUse j \<Rightarrow> j = i
      | MAssign j v \<Rightarrow> j = i
      | MNode n \<Rightarrow> nodeBound i n
      | _ \<Rightarrow> True)"

text \<open>The property names of a store object: its surface.\<close>

definition surface :: "store \<Rightarrow> string set" where
  "surface s = fst ` set s"

text \<open>
  \<^verbatim>\<open>
  const createInnerStore = (initialState: TState) => {
    const immerStoreApi = pipeMiddlewares(() => initialState);
    ...
    const globalMethods = { set: setState, get: immerStoreApi.getState,
                            use: useStore, assign: assign };
    const innerMethods = generateInnerSelectors({ immerStore: immerStoreApi, useStore,
                                                  storeName: name });
    return { storeName: name, immerStoreApi, ...globalMethods, ...innerMethods };
  };
  \<close>
  The new instance takes the next free index. The persist and devtools middlewares store
  and report the state and are not modelled.
\<close>

definition createInnerStore :: "string \<Rightarrow> jsval \<Rightarrow> heap \<Rightarrow> store \<times> heap" where
  "createInnerStore name initialState h =
     (let immerStoreApi = length h;
          h' = h @ [initialState];
          globalMethods =
            [(''set'', MSet immerStoreApi), (''get'', MGet immerStoreApi),
             (''use'', MUse immerStoreApi), (''assign'', MAssign immerStoreApi initialState)];
          innerMethods = map (\<lambda>(k, n). (k, MNode n)) (generateInnerSelectors immerStoreApi h')
      in (object_assign
            (object_assign
               [(''storeName'', MStoreName name), (''immerStoreApi'', MImmerStoreApi immerStoreApi)]
               globalMethods)
            innerMethods,
          h'))"

text \<open>
  \<^verbatim>\<open>
  const applyExtensions = (store) => {
    return extensions.reduce((acc, ext) => {
      return Object.assign(acc, ext(acc));
    }, store);
  };
  \<close>
  The code updates the one store object in place and hands that object to every builder,
  so a function that a builder returns finds on it also the properties added afterwards.
  Here a builder receives the store as it is when the builder is applied, and a function
  it returns keeps reading that store. Which properties a builder returns, the member put
  under each name and the order in which the builders are applied are those of the code.
\<close>

definition applyExtensions :: "builder list \<Rightarrow> heap \<Rightarrow> store \<Rightarrow> store" where
  "applyExtensions extensions h store =
     foldl (\<lambda>acc ext. object_assign acc (ext acc h)) store extensions"

section \<open>createStore\<close>

text \<open>
  What one call of \<^verbatim>\<open>createStore\<close> owns: the instances created so far (the global one
  first), the store name, the initial state, the extension registry and the api object.
\<close>

record world =
  instances :: heap
  name :: string
  initialState :: jsval
  extensions :: "builder list"
  api :: store

text \<open>
  \<^verbatim>\<open>
  let extensions = [];
  const globalStore = createInnerStore(initialState);
  const api = { ...globalStore, extend: ..., LocalProvider, useLocalStore };
  return api;
  \<close>
  \<open>nm\<close> is the store name: \<^verbatim>\<open>options.name\<close>, or else the JSON text of the keys of the
  initial state (of the initial state itself when it is not an object). The options for
  persistence, devtools and freezing do not change what the accessors compute and are left
  out.
\<close>

definition createStore :: "jsval \<Rightarrow> string \<Rightarrow> world" where
  "createStore initialState0 nm =
     (let (globalStore, h) = createInnerStore nm initialState0 []
      in \<lparr> instances = h, name = nm, initialState = initialState0, extensions = [],
           api = object_assign (object_assign [] globalStore)
                   [(''extend'', MExtend), (''LocalProvider'', MLocalProvider),
                    (''useLocalStore'', MUseLocalStore)] \<rparr>)"

text \<open>The instance of the global store is the first one created.\<close>

definition globalId :: nat where
  "globalId = 0"

text \<open>
  \<^verbatim>\<open>
  extend: (builder) => {
    extensions.push(builder);
    const extendedStore = applyExtensions(api as any);
    Object.assign(api, extendedStore);
    return api;
  }
  \<close>
  \<^verbatim>\<open>applyExtensions\<close> updates the object it is given and returns it, so
  \<^verbatim>\<open>extendedStore\<close> is \<^verbatim>\<open>api\<close> itself and the last assignment changes nothing.
\<close>

definition extend :: "builder \<Rightarrow> world \<Rightarrow> world" where
  "extend builder w =
     (let extensions' = extensions w @ [builder];
          extendedStore = applyExtensions extensions' (instances w) (api w)
      in w\<lparr> extensions := extensions', api := extendedStore \<rparr>)"

text \<open>
  \<^verbatim>\<open>
  const LocalProvider = ({ children, initialValue: localInitialValue = {} }) => {
    const mergedInitialState = isObject(initialState)
      ? { ...initialState, ...localInitialValue }
      : ((localInitialValue ?? initialState) as TState);
    const localStore = createInnerStore(mergedInitialState);
    const localStoreWithExtensions = applyExtensions(localStore);
    return <LocalContext.Provider value={localStoreWithExtensions}> ...
  };
  \<close>
  The argument is the \<^verbatim>\<open>initialValue\<close> prop, \<open>None\<close> when the prop is omitted; an
  omitted or \<^verbatim>\<open>undefined\<close> prop takes the default \<^verbatim>\<open>{}\<close>. The result is the value
  handed to the context provider, and the world with the new instance.
\<close>

definition defaultInitialValue :: "jsval option \<Rightarrow> jsval" where
  "defaultInitialValue initialValue =
     (case initialValue of None \<Rightarrow> JObj [] | Some JUndefined \<Rightarrow> JObj [] | Some v \<Rightarrow> v)"

text \<open>\<^verbatim>\<open>a ?? b\<close>\<close>

definition nullish :: "jsval \<Rightarrow> jsval \<Rightarrow> jsval" where
  "nullish a b = (if a = JNull \<or> a = JUndefined then b else a)"

definition mergedInitialState :: "jsval \<Rightarrow> jsval option \<Rightarrow> jsval" where
  "mergedInitialState initialState0 initialValue =
     (let localInitialValue = defaultInitialValue initialValue
      in if isObject initialState0
         then JObj (spread2 (own_props initialState0) (own_props localInitialValue))
         else nullish localInitialValue initialState0)"

definition LocalProvider :: "jsval option \<Rightarrow> world \<Rightarrow> store \<times> world" where
  "LocalProvider initialValue w =
     (let (localStore, h) =
            createInnerStore (name w) (mergedInitialState (initialState w) initialValue)
              (instances w);
          localStoreWithExtensions = applyExtensions (extensions w) h localStore
      in (localStoreWithExtensions, w\<lparr> instances := h \<rparr>))"

text \<open>The instance a call of \<^verbatim>\<open>LocalProvider\<close> creates in world \<open>w\<close>.\<close>

definition localId :: "world \<Rightarrow> nat" where
  "localId w = length (instances w)"

text \<open>
  \<^verbatim>\<open>React.useContext(LocalContext)\<close>: the value of the nearest enclosing provider, or
  the default value \<^verbatim>\<open>null\<close> of the context. The argument lists the values of the
  providers that enclose the calling component, the innermost first.
\<close>

fun useContext :: "'a list \<Rightarrow> 'a option" where
  "useContext [] = None"
| "useContext (v # _) = Some v"

datatype error = Error string

text \<open>
  \<^verbatim>\<open>
  const useLocalStore = () => {
    const localStore = React.useContext(LocalContext);
    if (localStore) { return localStore; }
    throw new Error('useLocalStore must be used within a LocalProvider');
  };
  \<close>
\<close>

definition useLocalStore :: "store list \<Rightarrow> error + store" where
  "useLocalStore providers =
     (case useContext providers of
        Some localStore \<Rightarrow> Inr localStore
      | None \<Rightarrow> Inl (Error ''useLocalStore must be used within a LocalProvider''))"

section \<open>Using a store object\<close>

text \<open>
  Reading a property of a store object and calling it. \<open>None\<close> stands for the
  \<^verbatim>\<open>TypeError\<close> of calling something that is not the expected accessor.
\<close>

text \<open>\<^verbatim>\<open>store.set(fnOrNewValue)\<close>\<close>

definition store_set :: "store \<Rightarrow> setarg \<Rightarrow> heap \<Rightarrow> heap option" where
  "store_set s a h = (case map_of s ''set'' of Some (MSet i) \<Rightarrow> Some (setState i a h) | _ \<Rightarrow> None)"

text \<open>\<^verbatim>\<open>store.assign(state)\<close>\<close>

definition store_assign :: "store \<Rightarrow> jsval \<Rightarrow> heap \<Rightarrow> heap option" where
  "store_assign s state h =
     (case map_of s ''assign'' of
        Some (MAssign i initialState0) \<Rightarrow> Some (assign i initialState0 state h)
      | _ \<Rightarrow> None)"

text \<open>\<^verbatim>\<open>store.k1.k2\<close>: the accessor node at a path of at least one property name.\<close>

definition store_node :: "store \<Rightarrow> string list \<Rightarrow> node option" where
  "store_node s p =
     (case p of
        [] \<Rightarrow> None
      | k # ks \<Rightarrow> (case map_of s k of Some (MNode n) \<Rightarrow> descend n ks | _ \<Rightarrow> None))"

text \<open>\<^verbatim>\<open>store.k()\<close> for an action that a builder has defined.\<close>

definition call_action :: "store \<Rightarrow> string \<Rightarrow> heap \<Rightarrow> heap option" where
  "call_action s k h = (case map_of s k of Some (MAction f) \<Rightarrow> Some (f h) | _ \<Rightarrow> None)"

text \<open>
  Modelled from the spec: \<^verbatim>\<open>store.k.get()\<close> for a computed property evaluates its
  derivation function on the current state.
\<close>

definition computed_get :: "store \<Rightarrow> string \<Rightarrow> heap \<Rightarrow> jsval option" where
  "computed_get s k h = (case map_of s k of Some (MComputed f) \<Rightarrow> Some (f h) | _ \<Rightarrow> None)"

text \<open>
  Modelled from the spec: the methods of a member that is an accessor. A node has its own;
  the read-only accessor of a computed property exposes only \<^verbatim>\<open>get()\<close> and
  \<^verbatim>\<open>use()\<close>.
\<close>

definition member_methods :: "member \<Rightarrow> string set" where
  "member_methods m =
     (case m of MNode n \<Rightarrow> node_methods n | MComputed f \<Rightarrow> {''get'', ''use''} | _ \<Rightarrow> {})"

text \<open>
  Modelled from the spec: the \<^verbatim>\<open>computed\<close> method of the builder is not among the
  sources. The spec: a computed property is a derived, read-only accessor whose value is
  recalculated from other state; it exposes only \<^verbatim>\<open>get()\<close> and \<^verbatim>\<open>use()\<close>, and the
  builder registers the definitions so that they are applied to the global store and to
  every local store. The callback maps a store to named derivation functions.
\<close>

type_synonym derivations = "store \<Rightarrow> (string \<times> (heap \<Rightarrow> jsval)) list"

definition computed :: "derivations \<Rightarrow> builder" where
  "computed cb = (\<lambda>store h. map (\<lambda>(k, f). (k, MComputed f)) (cb store))"

text \<open>A chain of \<^verbatim>\<open>extend\<close> calls, the first builder of the list first.\<close>

definition extends :: "builder list \<Rightarrow> world \<Rightarrow> world" where
  "extends bs w = foldl (\<lambda>w b. extend b w) w bs"

text \<open>Calling an action of the api on the current instances.\<close>

definition act :: "string \<Rightarrow> world \<Rightarrow> world" where
  "act k w =
     (case call_action (api w) k (instances w) of
        Some h \<Rightarrow> w\<lparr> instances := h \<rparr>
      | None \<Rightarrow> w)"

section \<open>State trees\<close>

text \<open>A state tree is well formed when every object has each property name once.\<close>

fun wellFormed :: "jsval \<Rightarrow> bool" where
  "wellFormed (JObj kvs) = (distinct (map fst kvs) \<and> (\<forall>v \<in> snd ` set kvs. wellFormed v))"
| "wellFormed (JArr xs) = (\<forall>v \<in> set xs. wellFormed v)"
| "wellFormed _ = True"

text \<open>The reachable paths of a state tree: the non-empty paths through nested objects.\<close>

fun paths :: "jsval \<Rightarrow> string list list" where
  "paths (JObj kvs) = concat (map (\<lambda>(k, v). [k] # map ((#) k) (paths v)) kvs)"
| "paths _ = []"

text \<open>The property names of an object state; other states have none.\<close>

definition stateKeys :: "jsval \<Rightarrow> string set" where
  "stateKeys v = (case v of JObj kvs \<Rightarrow> fst ` set kvs | _ \<Rightarrow> {})"

text \<open>The names of the root accessors and of the other members of every store object.\<close>

definition rootNames :: "string set" where
  "rootNames = {''storeName'', ''immerStoreApi'', ''set'', ''get'', ''use'', ''assign''}"

text \<open>The names that \<^verbatim>\<open>createStore\<close> itself puts on the api object after the store's.\<close>

definition apiNames :: "string set" where
  "apiNames = {''extend'', ''LocalProvider'', ''useLocalStore''}"

text \<open>A builder whose property names do not depend on the store it is applied to.\<close>

definition fixedNames :: "builder \<Rightarrow> bool" where
  "fixedNames b = (\<forall>s h s' h'. fst ` set (b s h) = fst ` set (b s' h'))"

text \<open>
  No builder of a list defines the property \<open>k\<close>; two store objects have the same
  members under every name that no builder of the list defines.
\<close>

definition untouched :: "builder list \<Rightarrow> string \<Rightarrow> bool" where
  "untouched bs k = (\<forall>b\<in>set bs. \<forall>s h. k \<notin> fst ` set (b s h))"

definition agreeOutside :: "builder list \<Rightarrow> store \<Rightarrow> store \<Rightarrow> bool" where
  "agreeOutside bs s t = (\<forall>k. untouched bs k \<longrightarrow> map_of s k = map_of t k)"

section \<open>The worlds a store goes through\<close>

text \<open>
  What the calls on a store can lead to: \<^verbatim>\<open>createStore\<close> makes the first world; then
  builders are registered with \<^verbatim>\<open>extend\<close>, providers are rendered, each creating a
  local instance, and the states of the instances are updated.
\<close>

inductive reachable :: "world \<Rightarrow> bool" where
  created: "reachable (createStore init nm)"
| extended: "reachable w \<Longrightarrow> reachable (extend b w)"
| provided: "reachable w \<Longrightarrow> reachable (snd (LocalProvider iv w))"
| updated: "reachable w \<Longrightarrow> length h = length (instances w) \<Longrightarrow> reachable (w\<lparr> instances := h \<rparr>)"

section \<open>Object identity\<close>

text \<open>
  The root accessors once more, on a memory of cells, to follow which object an update
  writes. \<^verbatim>\<open>get()\<close> hands out the reference of the current state; every value an
  instance ever held stays in its cell.
\<close>

datatype refstore = RefStore (cells: "jsval list") (current: nat)

definition ref_getState :: "refstore \<Rightarrow> nat" where
  "ref_getState r = current r"

text \<open>
  A function passed to \<^verbatim>\<open>setState\<close> receives the reference of a draft and writes to
  the memory.
\<close>

datatype refarg = RefValue jsval | RefRecipe "nat \<Rightarrow> jsval list \<Rightarrow> jsval list"

text \<open>
  Modelled from the spec: \<^verbatim>\<open>./middlewares/immer.middleware\<close> is not among the sources.
  The spec calls the update immutable: a new value becomes the state in a cell of its
  own; a function receives a draft, which is a copy of the current state in a new cell,
  and the draft as the function leaves it becomes the state.
\<close>

definition ref_immer_setState :: "refarg \<Rightarrow> refstore \<Rightarrow> refstore" where
  "ref_immer_setState a r =
     (let draft = length (cells r)
      in case a of
           RefValue v \<Rightarrow> RefStore (cells r @ [v]) draft
         | RefRecipe f \<Rightarrow>
             RefStore (f draft (cells r @ [cells r ! current r])) draft)"

text \<open>\<^verbatim>\<open>setState\<close> and \<^verbatim>\<open>assign\<close> of \<^verbatim>\<open>createInnerStore\<close>, as above.\<close>

definition ref_setState :: "refarg \<Rightarrow> refstore \<Rightarrow> refstore" where
  "ref_setState fnOrNewValue r = ref_immer_setState fnOrNewValue r"

definition ref_assign :: "jsval \<Rightarrow> jsval \<Rightarrow> refstore \<Rightarrow> refstore" where
  "ref_assign initialState0 state r =
     ref_immer_setState
       (if isObject initialState0
        then RefRecipe (\<lambda>draft cs. cs[draft := Object_assign (cs ! draft) state])
        else RefValue state) r"

text \<open>A function that writes to its draft only.\<close>

definition writesDraftOnly :: "(nat \<Rightarrow> jsval list \<Rightarrow> jsval list) \<Rightarrow> bool" where
  "writesDraftOnly f =
     (\<forall>d cs. length (f d cs) = length cs \<and> (\<forall>a. a \<noteq> d \<longrightarrow> f d cs ! a = cs ! a))"

section \<open>Example stores\<close>

text \<open>Arithmetic of the examples, on numbers.\<close>

fun js_plus :: "jsval \<Rightarrow> jsval \<Rightarrow> jsval" where
  "js_plus (JNum a) (JNum b) = JNum (a + b)"
| "js_plus _ _ = JUndefined"

fun js_times :: "jsval \<Rightarrow> jsval \<Rightarrow> jsval" where
  "js_times (JNum a) (JNum b) = JNum (a * b)"
| "js_times _ _ = JUndefined"

text \<open>
  The store of \<^verbatim>\<open>store-computed.test.tsx\<close>:
  \<^verbatim>\<open>
  const countStore = store({ count: 10 })
    .computed((store) => ({ doubled: () => store.count.use() * 2 }))
    .actions((store) => ({
      increment() { store.count.set(store.count.get() + 1); },
      decrement() { store.count.set(store.count.get() - 1); },
    }));
  \<close>
  \<^verbatim>\<open>computed\<close> and \<^verbatim>\<open>actions\<close> register their builders through \<^verbatim>\<open>extend\<close>.
\<close>

definition count_of :: "store \<Rightarrow> node" where
  "count_of store = (case store_node store [''count''] of Some n \<Rightarrow> n | None \<Rightarrow> Node 0 [] False [])"

definition doubled :: derivations where
  "doubled store = [(''doubled'', \<lambda>h. js_times (node_use (count_of store) h) (JNum 2))]"

definition counterActions :: builder where
  "counterActions store h0 =
     [(''increment'', MAction (\<lambda>h. node_set (count_of store)
                                  (NewValue (js_plus (node_get (count_of store) h) (JNum 1))) h)),
      (''decrement'', MAction (\<lambda>h. node_set (count_of store)
                                  (NewValue (js_plus (node_get (count_of store) h) (JNum (- 1)))) h))]"

definition countStore :: "int \<Rightarrow> world" where
  "countStore c =
     extend counterActions
       (extend (computed doubled) (createStore (JObj [(''count'', JNum c)]) ''count''))"

text \<open>
  The state of the store of the documentation:
  \<^verbatim>\<open>store({ name: 'John', age: 25, address: { street: '123 Main St', city: 'Anytown' } })\<close>
\<close>

definition userState :: jsval where
  "userState =
     JObj [(''name'', JStr ''John''), (''age'', JNum 25),
           (''address'', JObj [(''street'', JStr ''123 Main St''), (''city'', JStr ''Anytown'')])]"

text \<open>
  The counter store with a nested object in its state:
  \<^verbatim>\<open>store({ count: 10, user: { name: 'Ann' } }).computed(...).actions(...)\<close>
\<close>

definition profileState :: jsval where
  "profileState = JObj [(''count'', JNum 10), (''user'', JObj [(''name'', JStr ''Ann'')])]"

definition profileStore :: world where
  "profileStore =
     extend counterActions (extend (computed doubled) (createStore profileState ''profile''))"

text \<open>A builder that returns the same properties for every store: \<^verbatim>\<open>(store) => props\<close>.\<close>

definition fixedProps :: "(string \<times> member) list \<Rightarrow> builder" where
  "fixedProps props store h = props"

text \<open>
  Two builders that define the same property, registered one after the other:
  \<^verbatim>\<open>store({ count: 0 }).extend(() => ({ tag: 'first', one: 1 })).extend(() => ({ tag: 'second' }))\<close>
\<close>

definition tagFirst :: builder where
  "tagFirst = fixedProps [(''tag'', MValue (JStr ''first'')), (''one'', MValue (JNum 1))]"

definition tagSecond :: builder where
  "tagSecond = fixedProps [(''tag'', MValue (JStr ''second''))]"

definition taggedStore :: world where
  "taggedStore = extend tagSecond (extend tagFirst (createStore (JObj [(''count'', JNum 0)]) ''tagged''))"

text \<open>
  A builder that looks at the state when it is applied:
  \<^verbatim>\<open>(store) => store.admin.get() ? { ban() {} } : {}\<close>
\<close>

definition adminOnly :: builder where
  "adminOnly store h =
     (case store_node store [''admin''] of
        Some n \<Rightarrow> (if node_get n h = JBool True then [(''ban'', MAction (\<lambda>h. h))] else [])
      | None \<Rightarrow> [])"

section \<open>Property lists\<close>

lemma update_fresh: "k \<notin> fst ` set t \<Longrightarrow> AList.update k v t = t @ [(k, v)]"
  by (induction t) auto

lemma object_assign_Nil [simp]: "object_assign t [] = t"
  by (simp add: object_assign_def)

lemma object_assign_Cons [simp]:
  "object_assign t ((k, v) # s) = object_assign (AList.update k v t) s"
  by (simp add: object_assign_def)

lemma keys_object_assign: "fst ` set (object_assign t s) = fst ` set t \<union> fst ` set s"
proof (induction s arbitrary: t)
  case Nil
  then show ?case by simp
next
  case (Cons p s)
  obtain k v where p: "p = (k, v)" by (cases p)
  have "fst ` set (object_assign (AList.update k v t) s) = ({k} \<union> fst ` set t) \<union> fst ` set s"
    by (simp only: Cons.IH dom_update)
  with p show ?case by auto
qed

text \<open>A source with each name once overrides the target property by property.\<close>

lemma map_of_object_assign:
  "distinct (map fst s) \<Longrightarrow> map_of (object_assign t s) = map_of t ++ map_of s"
proof (induction s arbitrary: t)
  case Nil
  then show ?case by simp
next
  case (Cons p s)
  obtain k v where p: "p = (k, v)" by (cases p)
  from Cons.prems p have k: "k \<notin> fst ` set s" and d: "distinct (map fst s)" by auto
  have "map_of (object_assign (AList.update k v t) s) = map_of (AList.update k v t) ++ map_of s"
    by (rule Cons.IH [OF d])
  moreover from k have "map_of s k = None"
    by (simp add: map_of_eq_None_iff)
  ultimately have "map_of (object_assign t (p # s)) x = (map_of t ++ map_of (p # s)) x" for x
    using p by (simp add: update_conv' map_add_def split: option.splits)
  then show ?case by (rule ext)
qed

lemma object_assign_distinct:
  "distinct (map fst (t @ s)) \<Longrightarrow> object_assign t s = t @ s"
proof (induction s arbitrary: t)
  case Nil
  then show ?case by simp
next
  case (Cons p s)
  obtain k v where p: "p = (k, v)" by (cases p)
  from Cons.prems p have "k \<notin> fst ` set t" by auto
  then have u: "AList.update k v t = t @ [(k, v)]" by (rule update_fresh)
  from Cons.prems p have "distinct (map fst ((t @ [(k, v)]) @ s))" by auto
  from Cons.IH [OF this] u p show ?case by simp
qed



section \<open>Instances and their creation\<close>

lemma isObject_iff: "isObject v \<longleftrightarrow> (\<exists>kvs. v = JObj kvs)"
  by (cases v) (simp_all add: isObject_def)

lemma getState_last [simp]: "getState (h @ [v]) (length h) = v"
  by (simp add: getState_def)

lemma snd_createInnerStore [simp]: "snd (createInnerStore nm init h) = h @ [init]"
  by (simp add: createInnerStore_def Let_def)

lemma instances_LocalProvider:
  "instances (snd (LocalProvider iv w)) = instances w @ [mergedInitialState (initialState w) iv]"
  by (simp add: LocalProvider_def Let_def split_beta)


section \<open>The local store context\<close>

text \<open>
  C9. \<^verbatim>\<open>useLocalStore\<close> returns the store of the nearest enclosing \<^verbatim>\<open>LocalProvider\<close>,
  and with no provider above the calling component it throws the error
  \<^verbatim>\<open>useLocalStore must be used within a LocalProvider\<close>.
\<close>

theorem useLocalStore_nearest_provider_or_error:
  "useLocalStore [] = Inl (Error ''useLocalStore must be used within a LocalProvider'')
   \<and> useLocalStore (localStore # outer) = Inr localStore"
  by (simp add: useLocalStore_def)



section \<open>Accessor nodes of a created store\<close>

lemma map_of_map_keyed:
  "map_of (map (\<lambda>(k, v). (k, f k v)) kvs) k = map_option (f k) (map_of kvs k)"
  by (induction kvs) auto

lemma paths_Cons_iff:
  "(k # ks) \<in> set (paths (JObj kvs)) \<longleftrightarrow> (\<exists>v. (k, v) \<in> set kvs \<and> (ks = [] \<or> ks \<in> set (paths v)))"
  by (auto simp: image_iff split: prod.splits) 

lemma paths_nonobject: "\<not> isObject v \<Longrightarrow> paths v = []"
  by (cases v) (simp_all add: isObject_def)

lemma paths_nonempty: "p \<in> set (paths v) \<Longrightarrow> p \<noteq> []"
  by (cases v) auto

lemma descend_createNode:
  "wellFormed v \<Longrightarrow> p = [] \<or> p \<in> set (paths v) \<Longrightarrow>
     descend (createNode i q v) p = Some (createNode i (q @ p) (get_in v p))"
proof (induction p arbitrary: v q)
  case Nil
  then show ?case by simp
next
  case (Cons k ks)
  from Cons.prems(2) have pin: "(k # ks) \<in> set (paths v)" by simp
  then obtain kvs where v: "v = JObj kvs"
    by (cases v) auto
  from pin v obtain v' where mem: "(k, v') \<in> set kvs" and ks: "ks = [] \<or> ks \<in> set (paths v')"
    by (auto simp: paths_Cons_iff)
  from Cons.prems(1) v have d: "distinct (map fst kvs)" and wv: "wellFormed v'"
    using mem by force+
  from d mem have look: "map_of kvs k = Some v'" by simp
  have ch: "map_of (children (createNode i q v)) k = Some (createNode i (q @ [k]) v')"
    using look v by (simp add: map_of_map_keyed)
  from Cons.IH [OF wv ks, of "q @ [k]"] ch look v show ?case
    by simp
qed

lemma get_in_update_in:
  "get_in v p = JObj kvs \<Longrightarrow> get_in (update_in p f v) p = f (JObj kvs)"
proof (induction p arbitrary: v)
  case Nil
  then show ?case by simp
next
  case (Cons k ks)
  from Cons.prems obtain kvs' where v: "v = JObj kvs'"
    by (cases v) auto
  with Cons.prems obtain v' where look: "map_of kvs' k = Some v'" and g: "get_in v' ks = JObj kvs"
    by (auto split: option.splits)
  from Cons.IH [OF g] v look show ?case
    by (simp add: update_conv')
qed


lemma map_of_object_assign_other:
  "k \<notin> fst ` set s \<Longrightarrow> map_of (object_assign t s) k = map_of t k"
proof (induction s arbitrary: t)
  case Nil
  then show ?case by simp
next
  case (Cons p s)
  obtain k' v where p: "p = (k', v)" by (cases p)
  with Cons.prems have "k \<noteq> k'" "k \<notin> fst ` set s" by auto
  with Cons.IH [of "AList.update k' v t"] p show ?case
    by (simp add: update_conv')
qed

lemma generateInnerSelectors_new:
  "generateInnerSelectors (length h) (h @ [init]) =
     (case init of JObj kvs \<Rightarrow> map (\<lambda>(k, v). (k, createNode (length h) [k] v)) kvs | _ \<Rightarrow> [])"
  by (simp add: generateInnerSelectors_def)

lemma fst_createInnerStore:
  "fst (createInnerStore nm init h) =
     object_assign
       [(''storeName'', MStoreName nm), (''immerStoreApi'', MImmerStoreApi (length h)),
        (''set'', MSet (length h)), (''get'', MGet (length h)), (''use'', MUse (length h)),
        (''assign'', MAssign (length h) init)]
       (map (\<lambda>(k, n). (k, MNode n)) (generateInnerSelectors (length h) (h @ [init])))"
  by (simp add: createInnerStore_def Let_def)

lemma keys_innerMethods:
  "fst ` set (map (\<lambda>(k, n). (k, MNode n)) (generateInnerSelectors (length h) (h @ [init]))) = stateKeys init"
  by (cases init) (simp_all add: generateInnerSelectors_new stateKeys_def image_image split_beta)

lemma surface_createInnerStore:
  "surface (fst (createInnerStore nm init h)) = rootNames \<union> stateKeys init"
  unfolding surface_def fst_createInnerStore keys_object_assign keys_innerMethods
  by (auto simp: rootNames_def)

lemma map_of_createInnerStore_root:
  assumes "k \<notin> stateKeys init"
  shows "map_of (fst (createInnerStore nm init h)) k =
   map_of [(''storeName'', MStoreName nm), (''immerStoreApi'', MImmerStoreApi (length h)),
        (''set'', MSet (length h)), (''get'', MGet (length h)), (''use'', MUse (length h)),
        (''assign'', MAssign (length h) init)] k"
proof -
  have "k \<notin> fst ` set (map (\<lambda>(k, n). (k, MNode n))
      (generateInnerSelectors (length h) (h @ [init])))"
    using assms unfolding keys_innerMethods .
  then show ?thesis
    unfolding fst_createInnerStore by (rule map_of_object_assign_other)
qed

lemma map_of_createInnerStore_node:
  assumes "distinct (map fst kvs)" and "(k, v) \<in> set kvs"
  shows "map_of (fst (createInnerStore nm (JObj kvs) h)) k = Some (MNode (createNode (length h) [k] v))"
proof -
  let ?inner = "map (\<lambda>(k, n). (k, MNode n)) (generateInnerSelectors (length h) (h @ [JObj kvs]))"
  have inner: "?inner = map (\<lambda>(k, v). (k, MNode (createNode (length h) [k] v))) kvs"
    by (simp add: generateInnerSelectors_new split_beta)
  have d: "distinct (map fst ?inner)"
    using assms(1) by (simp add: inner split_beta comp_def)
  from assms have "map_of kvs k = Some v" by simp
  then have "map_of ?inner k = Some (MNode (createNode (length h) [k] v))"
    unfolding inner by (simp add: map_of_map_keyed)
  then show ?thesis
    unfolding fst_createInnerStore map_of_object_assign [OF d] by (simp add: map_add_def)
qed

lemma store_node_createInnerStore:
  assumes "wellFormed init" and "p \<in> set (paths init)"
  shows "store_node (fst (createInnerStore nm init h)) p = Some (createNode (length h) p (get_in init p))"
proof -
  from assms(2) obtain kvs where init: "init = JObj kvs" by (cases init) auto
  from paths_nonempty [OF assms(2)] obtain k ks where p: "p = k # ks" by (cases p) auto
  from assms(2) init p obtain v where mem: "(k, v) \<in> set kvs" and ks: "ks = [] \<or> ks \<in> set (paths v)"
    by (auto simp: paths_Cons_iff)
  from assms(1) init mem have d: "distinct (map fst kvs)" and wv: "wellFormed v"
    by force+
  from d mem have look: "map_of kvs k = Some v" by simp
  have "store_node (fst (createInnerStore nm init h)) p = descend (createNode (length h) [k] v) ks"
    using map_of_createInnerStore_node [OF d mem] init p by (simp add: store_node_def)
  also have "\<dots> = Some (createNode (length h) ([k] @ ks) (get_in v ks))"
    by (rule descend_createNode [OF wv ks])
  finally show ?thesis using init p look by simp
qed

lemma createNode_sel [simp]:
  "inst (createNode i p v) = i" "path (createNode i p v) = p" "assignable (createNode i p v) = isObject v"
  by (cases v; simp add: isObject_def)+

section \<open>Root accessors and local initial state\<close>

lemma getState_immer_setState_same:
  "i < length h \<Longrightarrow> getState (immer_setState i a h) i = (case a of NewValue v \<Rightarrow> v | Recipe f \<Rightarrow> f (h ! i))"
  by (simp add: getState_def immer_setState_def)

lemma getState_immer_setState_other:
  "i \<noteq> j \<Longrightarrow> getState (immer_setState i a h) j = getState h j"
  by (simp add: getState_def immer_setState_def)

lemma length_immer_setState [simp]: "length (immer_setState i a h) = length h"
  by (simp add: immer_setState_def)

lemma createStore_fields [simp]:
  "instances (createStore init nm) = [init]"
  "initialState (createStore init nm) = init"
  "name (createStore init nm) = nm"
  "extensions (createStore init nm) = []"
  by (simp_all add: createStore_def split_beta)

lemma api_createStore:
  "api (createStore init nm) =
     object_assign (object_assign [] (fst (createInnerStore nm init [])))
       [(''extend'', MExtend), (''LocalProvider'', MLocalProvider), (''useLocalStore'', MUseLocalStore)]"
  by (simp add: createStore_def split_beta)

lemma surface_api_createStore:
  "surface (api (createStore init nm)) = rootNames \<union> stateKeys init \<union> apiNames"
  using surface_createInnerStore [of nm init "[]"]
  unfolding surface_def api_createStore keys_object_assign
  by (auto simp: apiNames_def)

lemma distinct_object_assign:
  "distinct (map fst t) \<Longrightarrow> distinct (map fst (object_assign t s))"
proof (induction s arbitrary: t)
  case Nil
  then show ?case by simp
next
  case (Cons p s)
  obtain k v where p: "p = (k, v)" by (cases p)
  from Cons.prems have "distinct (map fst (AList.update k v t))"
    by (rule distinct_update)
  from Cons.IH [OF this] p show ?case by simp
qed

lemma distinct_createInnerStore: "distinct (map fst (fst (createInnerStore nm init h)))"
  unfolding fst_createInnerStore by (rule distinct_object_assign) simp

lemma map_of_api_createStore:
  assumes "k \<notin> apiNames"
  shows "map_of (api (createStore init nm)) k = map_of (fst (createInnerStore nm init [])) k"
proof -
  have c: "object_assign [] (fst (createInnerStore nm init [])) = fst (createInnerStore nm init [])"
    using object_assign_distinct [of "[]" "fst (createInnerStore nm init [])"]
    by (simp add: distinct_createInnerStore)
  have "k \<notin> fst ` set [(''extend'', MExtend), (''LocalProvider'', MLocalProvider),
       (''useLocalStore'', MUseLocalStore)]"
    using assms by (simp add: apiNames_def)
  then show ?thesis
    unfolding api_createStore c by (rule map_of_object_assign_other)
qed

lemma root_assign_createStore:
  assumes "\<not> isObject init"
  shows "map_of (api (createStore init nm)) ''assign'' = Some (MAssign globalId init)"
    and "map_of (api (createStore init nm)) ''set'' = Some (MSet globalId)"
proof -
  from assms have "stateKeys init = {}"
    by (cases init) (simp_all add: stateKeys_def isObject_def)
  then show "map_of (api (createStore init nm)) ''assign'' = Some (MAssign globalId init)"
    and "map_of (api (createStore init nm)) ''set'' = Some (MSet globalId)"
    by (simp_all add: map_of_api_createStore map_of_createInnerStore_root apiNames_def globalId_def)
qed





section \<open>assign\<close>

lemma node_assign_merges:
  assumes "assignable n" and "inst n < length s" and "get_in (s ! inst n) (path n) = JObj kvs"
  shows "\<exists>s'. node_assign n partial s = Some s'
            \<and> get_in (getState s' (inst n)) (path n) = JObj (object_assign kvs (own_props partial))"
  using assms
  by (simp add: node_assign_def getState_immer_setState_same get_in_update_in)

section \<open>Instances are not shared\<close>

lemma nodeBound_createNode: "nodeBound i (createNode i q v)"
proof (induction i q v rule: createNode.induct)
  case (1 i p kvs)
  then show ?case by (fastforce simp: image_iff)
qed simp_all



lemma set_update_subset: "set (AList.update k v t) \<subseteq> insert (k, v) (set t)"
  by (induction t) auto

lemma set_object_assign_subset: "set (object_assign t s) \<subseteq> set t \<union> set s"
proof (induction s arbitrary: t)
  case Nil
  then show ?case by simp
next
  case (Cons p s)
  obtain k v where p: "p = (k, v)" by (cases p)
  from Cons.IH [of "AList.update k v t"] set_update_subset [of k v t] p show ?case
    by auto
qed

lemma boundTo_createInnerStore:
  "(k, m) \<in> set (fst (createInnerStore nm init h)) \<Longrightarrow> boundTo (length h) m"
proof -
  assume "(k, m) \<in> set (fst (createInnerStore nm init h))"
  with set_object_assign_subset have
    "(k, m) \<in> set [(''storeName'', MStoreName nm), (''immerStoreApi'', MImmerStoreApi (length h)),
        (''set'', MSet (length h)), (''get'', MGet (length h)), (''use'', MUse (length h)),
        (''assign'', MAssign (length h) init)]
     \<or> (k, m) \<in> set (map (\<lambda>(k, n). (k, MNode n)) (generateInnerSelectors (length h) (h @ [init])))"
    unfolding fst_createInnerStore by blast
  then show ?thesis
  proof
    assume "(k, m) \<in> set [(''storeName'', MStoreName nm), (''immerStoreApi'', MImmerStoreApi (length h)),
        (''set'', MSet (length h)), (''get'', MGet (length h)), (''use'', MUse (length h)),
        (''assign'', MAssign (length h) init)]"
    then show ?thesis by (auto simp: boundTo_def)
  next
    assume "(k, m) \<in> set (map (\<lambda>(k, n). (k, MNode n)) (generateInnerSelectors (length h) (h @ [init])))"
    then show ?thesis
      by (cases init) (auto simp: generateInnerSelectors_new boundTo_def nodeBound_createNode)
  qed
qed

lemma boundTo_api_createStore:
  "map_of (api (createStore init nm)) k = Some m \<Longrightarrow> boundTo globalId m"
proof -
  assume "map_of (api (createStore init nm)) k = Some m"
  then have "(k, m) \<in> set (api (createStore init nm))" by (rule map_of_SomeD)
  moreover have "set (api (createStore init nm)) \<subseteq>
      set (object_assign [] (fst (createInnerStore nm init [])))
      \<union> set [(''extend'', MExtend), (''LocalProvider'', MLocalProvider), (''useLocalStore'', MUseLocalStore)]"
    unfolding api_createStore by (rule set_object_assign_subset)
  moreover have "set (object_assign [] (fst (createInnerStore nm init [])))
      \<subseteq> set [] \<union> set (fst (createInnerStore nm init []))"
    by (rule set_object_assign_subset)
  ultimately have "(k, m) \<in> set (fst (createInnerStore nm init []))
     \<or> (k, m) \<in> set [(''extend'', MExtend), (''LocalProvider'', MLocalProvider), (''useLocalStore'', MUseLocalStore)]"
    by auto
  then show ?thesis
    using boundTo_createInnerStore [of k m nm init "[]"] by (auto simp: boundTo_def globalId_def)
qed

section \<open>Replaying extensions\<close>

lemma map_of_applyExtensions_other:
  "\<forall>b\<in>set es. \<forall>s h. k \<notin> fst ` set (b s h) \<Longrightarrow> map_of (applyExtensions es h s) k = map_of s k"
proof (induction es arbitrary: s)
  case Nil
  then show ?case by (simp add: applyExtensions_def)
next
  case (Cons e es)
  have "applyExtensions (e # es) h s = applyExtensions es h (object_assign s (e s h))"
    by (simp add: applyExtensions_def)
  moreover from Cons.prems have "map_of (applyExtensions es h (object_assign s (e s h))) k
      = map_of (object_assign s (e s h)) k"
    by (intro Cons.IH) simp
  moreover from Cons.prems have "map_of (object_assign s (e s h)) k = map_of s k"
    by (intro map_of_object_assign_other) simp
  ultimately show ?case by simp
qed

lemma extends_Nil [simp]: "extends [] w = w"
  by (simp add: extends_def)

lemma extends_Cons [simp]: "extends (b # bs) w = extends bs (extend b w)"
  by (simp add: extends_def)

lemma extends_snoc: "extends (bs @ [b]) w = extend b (extends bs w)"
  by (simp add: extends_def)

lemma extend_fields [simp]:
  "instances (extend b w) = instances w"
  "initialState (extend b w) = initialState w"
  "name (extend b w) = name w"
  "extensions (extend b w) = extensions w @ [b]"
  "api (extend b w) = applyExtensions (extensions w @ [b]) (instances w) (api w)"
  by (simp_all add: extend_def Let_def)

lemma extends_fields [simp]:
  "instances (extends bs w) = instances w"
  "initialState (extends bs w) = initialState w"
  "name (extends bs w) = name w"
  "extensions (extends bs w) = extensions w @ bs"
  by (induction bs arbitrary: w) simp_all

lemma map_of_api_extends_other:
  assumes "\<forall>b\<in>set (extensions w @ bs). \<forall>s h. k \<notin> fst ` set (b s h)"
  shows "map_of (api (extends bs w)) k = map_of (api w) k"
  using assms
proof (induction bs arbitrary: w)
  case Nil
  then show ?case by simp
next
  case (Cons b bs)
  from Cons.prems have "\<forall>b\<in>set (extensions (extend b w) @ bs). \<forall>s h. k \<notin> fst ` set (b s h)"
    by simp
  from Cons.IH [OF this] have "map_of (api (extends (b # bs) w)) k = map_of (api (extend b w)) k"
    by simp
  also from Cons.prems have "\<dots> = map_of (api w) k"
    by (simp only: extend_fields) (rule map_of_applyExtensions_other, simp)
  finally show ?case .
qed

lemma fst_LocalProvider:
  "fst (LocalProvider iv w) =
     applyExtensions (extensions w) (instances w @ [mergedInitialState (initialState w) iv])
       (fst (createInnerStore (name w) (mergedInitialState (initialState w) iv) (instances w)))"
  by (simp add: LocalProvider_def Let_def split_beta)


section \<open>Local and global state\<close>

lemma localId_extends_createStore [simp]: "localId (extends bs (createStore init nm)) = 1"
  by (simp add: localId_def)

lemma local_member_bound:
  assumes "\<forall>b\<in>set bs. \<forall>s h. k \<notin> fst ` set (b s h)"
    and "map_of (fst (LocalProvider iv (extends bs (createStore init nm)))) k = Some m"
  shows "boundTo 1 m"
proof -
  let ?w = "extends bs (createStore init nm)"
  let ?st = "fst (createInnerStore (name ?w) (mergedInitialState (initialState ?w) iv) (instances ?w))"
  from assms(1) have "map_of (fst (LocalProvider iv ?w)) k = map_of ?st k"
    unfolding fst_LocalProvider by (intro map_of_applyExtensions_other) simp
  with assms(2) have "(k, m) \<in> set ?st"
    by (simp add: map_of_SomeD)
  from boundTo_createInnerStore [OF this] show ?thesis by simp
qed

lemma global_member_bound:
  assumes "\<forall>b\<in>set bs. \<forall>s h. k \<notin> fst ` set (b s h)"
    and "map_of (api (extends bs (createStore init nm))) k = Some m"
  shows "boundTo globalId m"
proof -
  from assms(1) have "map_of (api (extends bs (createStore init nm))) k = map_of (api (createStore init nm)) k"
    by (intro map_of_api_extends_other) simp
  with assms(2) show ?thesis
    by (simp add: boundTo_api_createStore)
qed






lemma countStore_extends:
  "countStore c = extends [computed doubled, counterActions] (createStore (JObj [(''count'', JNum c)]) ''count'')"
  by (simp add: countStore_def)

lemma counter_builders_names:
  "\<forall>b\<in>set [computed doubled, counterActions]. \<forall>s h. ''set'' \<notin> fst ` set (b s h)"
  "\<forall>b\<in>set [computed doubled, counterActions]. \<forall>s h. ''count'' \<notin> fst ` set (b s h)"
  by (simp_all add: computed_def doubled_def counterActions_def)

section \<open>The extension registry\<close>

lemma applyExtensions_Nil [simp]: "applyExtensions [] h s = s"
  by (simp add: applyExtensions_def)

lemma applyExtensions_Cons [simp]:
  "applyExtensions (e # es) h s = applyExtensions es h (object_assign s (e s h))"
  by (simp add: applyExtensions_def)

lemma applyExtensions_snoc:
  "applyExtensions (es @ [e]) h s = (let acc = applyExtensions es h s in object_assign acc (e acc h))"
  by (simp add: applyExtensions_def Let_def)

section \<open>The surface of local and global stores\<close>

lemma surface_object_assign: "surface (object_assign t s) = surface t \<union> fst ` set s"
  by (simp add: surface_def keys_object_assign)

lemma surface_applyExtensions:
  "\<forall>e\<in>set es. fixedNames e \<Longrightarrow>
     surface (applyExtensions es h s) = surface s \<union> (\<Union>e\<in>set es. fst ` set (e [] []))"
proof (induction es arbitrary: s)
  case Nil
  then show ?case by simp
next
  case (Cons e es)
  from Cons.prems have "fst ` set (e s h) = fst ` set (e [] [])"
    unfolding fixedNames_def by auto
  moreover from Cons.prems have "\<forall>e\<in>set es. fixedNames e" by simp
  ultimately show ?case
    by (simp add: Cons.IH surface_object_assign Un_assoc)
qed

lemma surface_api_extends:
  assumes "\<forall>b\<in>set (extensions w @ bs). fixedNames b"
    and "(\<Union>e\<in>set (extensions w). fst ` set (e [] [])) \<subseteq> surface (api w)"
  shows "surface (api (extends bs w)) = surface (api w) \<union> (\<Union>e\<in>set bs. fst ` set (e [] []))"
  using assms
proof (induction bs arbitrary: w)
  case Nil
  then show ?case by simp
next
  case (Cons b bs)
  from Cons.prems(1) have fx: "\<forall>e\<in>set (extensions w @ [b]). fixedNames e" by simp
  have s1: "surface (api (extend b w)) = surface (api w) \<union> fst ` set (b [] [])"
    using Cons.prems(2) by (auto simp: surface_applyExtensions [OF fx])
  from Cons.prems(1) have p1: "\<forall>e\<in>set (extensions (extend b w) @ bs). fixedNames e" by simp
  have p2: "(\<Union>e\<in>set (extensions (extend b w)). fst ` set (e [] [])) \<subseteq> surface (api (extend b w))"
    using Cons.prems(2) unfolding s1 by auto
  from Cons.IH [OF p1 p2] s1 show ?case by auto
qed

lemma stateKeys_mergedInitialState: "stateKeys init \<subseteq> stateKeys (mergedInitialState init iv)"
proof (cases "isObject init")
  case True
  then obtain g where "init = JObj g" by (auto simp: isObject_iff)
  then show ?thesis
    by (simp add: mergedInitialState_def isObject_def stateKeys_def spread2_def keys_object_assign)
next
  case False
  then have "stateKeys init = {}"
    by (cases init) (simp_all add: stateKeys_def isObject_def)
  then show ?thesis by simp
qed

lemma fixedNames_names: "fixedNames b \<Longrightarrow> fst ` set (b s h) = fst ` set (b [] [])"
  unfolding fixedNames_def by blast

text \<open>
  The builder \<^verbatim>\<open>(store) => store.admin.get() ? { ban() {} } : {}\<close> on the global store
  \<^verbatim>\<open>{ admin: true }\<close> and on a local store with \<^verbatim>\<open>initialValue={{ admin: false }}\<close>.
\<close>

lemma adminOnly_global:
  "adminOnly (api (createStore (JObj [(''admin'', JBool True)]) ''s'')) [JObj [(''admin'', JBool True)]]
     = [(''ban'', MAction (\<lambda>h. h))]"
proof -
  have "map_of (api (createStore (JObj [(''admin'', JBool True)]) ''s'')) ''admin''
      = Some (MNode (createNode 0 [''admin''] (JBool True)))"
    using map_of_createInnerStore_node [of "[(''admin'', JBool True)]" "''admin''" "JBool True" "''s''" "[]"]
    by (simp add: map_of_api_createStore apiNames_def)
  then show ?thesis
    by (simp add: adminOnly_def store_node_def node_get_def getState_def)
qed

lemma adminOnly_local:
  "adminOnly (fst (createInnerStore ''s'' (JObj [(''admin'', JBool False)]) [JObj [(''admin'', JBool True)]]))
     [JObj [(''admin'', JBool True)], JObj [(''admin'', JBool False)]] = []"
proof -
  have "map_of (fst (createInnerStore ''s'' (JObj [(''admin'', JBool False)]) [JObj [(''admin'', JBool True)]])) ''admin''
      = Some (MNode (createNode 1 [''admin''] (JBool False)))"
    using map_of_createInnerStore_node [of "[(''admin'', JBool False)]" "''admin''" "JBool False" "''s''"
        "[JObj [(''admin'', JBool True)]]"]
    by simp
  then show ?thesis
    by (simp add: adminOnly_def store_node_def node_get_def getState_def)
qed

section \<open>One accessor node per reachable path\<close>

lemma all_nodes_createNode:
  "map path (all_nodes (createNode i q v)) = q # map ((@) q) (paths v)"
proof (induction i q v rule: createNode.induct)
  case (1 i p kvs)
  have e: "(@) (p @ [k]) = (\<lambda>xa. p @ k # xa)" for k
    by (rule ext) simp
  have ih: "map path (all_nodes (createNode i (p @ [fst x]) (snd x)))
      = (p @ [fst x]) # map (\<lambda>xa. p @ fst x # xa) (paths (snd x))" if "x \<in> set kvs" for x
    using "1.IH" [of x "fst x" "snd x"] that by (simp add: e)
  have "map path (concat (map (\<lambda>(k, c). all_nodes c) (map (\<lambda>(k, v). (k, createNode i (p @ [k]) v)) kvs)))
      = concat (map (\<lambda>x. map path (all_nodes (createNode i (p @ [fst x]) (snd x)))) kvs)"
    by (simp add: map_concat comp_def split_def)
  also have "\<dots> = concat (map (\<lambda>x. (p @ [fst x]) # map (\<lambda>xa. p @ fst x # xa) (paths (snd x))) kvs)"
    using ih by (intro arg_cong [where f = concat] map_cong) auto
  also have "\<dots> = map ((@) p) (paths (JObj kvs))"
    by (simp add: map_concat comp_def split_def)
  finally show ?case by simp
qed simp_all

lemma distinct_concat_keyed:
  assumes "distinct (map fst kvs)"
    and "\<And>k v. (k, v) \<in> set kvs \<Longrightarrow> distinct (g k v)"
    and "\<And>k v p. (k, v) \<in> set kvs \<Longrightarrow> p \<in> set (g k v) \<Longrightarrow> p \<noteq> [] \<and> hd p = k"
  shows "distinct (concat (map (\<lambda>(k, v). g k v) kvs))"
  using assms
proof (induction kvs)
  case Nil
  then show ?case by simp
next
  case (Cons x kvs)
  obtain k v where x: "x = (k, v)" by (cases x)
  have d: "distinct (concat (map (\<lambda>(k, v). g k v) kvs))"
  proof (rule Cons.IH)
    show "distinct (map fst kvs)" using Cons.prems(1) by simp
  next
    fix k v assume "(k, v) \<in> set kvs"
    then show "distinct (g k v)" using Cons.prems(2) [of k v] by simp
  next
    fix k v p assume "(k, v) \<in> set kvs" "p \<in> set (g k v)"
    then show "p \<noteq> [] \<and> hd p = k" using Cons.prems(3) [of k v p] by simp
  qed
  have "set (g k v) \<inter> set (concat (map (\<lambda>(k, v). g k v) kvs)) = {}"
  proof (rule ccontr)
    assume "set (g k v) \<inter> set (concat (map (\<lambda>(k, v). g k v) kvs)) \<noteq> {}"
    then obtain p k' v' where p: "p \<in> set (g k v)" and m: "(k', v') \<in> set kvs" and p': "p \<in> set (g k' v')"
      by auto
    from Cons.prems(3) [of k v p] p x have "hd p = k" by simp
    moreover from Cons.prems(3) [of k' v' p] p' m have "hd p = k'" by simp
    ultimately have "k \<in> fst ` set kvs" using m by force
    with Cons.prems(1) x show False by simp
  qed
  with d Cons.prems(2) [of k v] x show ?case by simp
qed

lemma distinct_paths: "wellFormed v \<Longrightarrow> distinct (paths v)"
proof (induction v rule: paths.induct)
  case (1 kvs)
  have "distinct (concat (map (\<lambda>(k, v). [k] # map ((#) k) (paths v)) kvs))"
  proof (rule distinct_concat_keyed)
    show "distinct (map fst kvs)" using "1.prems" by simp
  next
    fix k v assume m: "(k, v) \<in> set kvs"
    with "1.prems" have "wellFormed v" by force
    with "1.IH" [OF m refl] have "distinct (paths v)" by simp
    then show "distinct ([k] # map ((#) k) (paths v))"
      by (auto simp: distinct_map dest: paths_nonempty)
  next
    fix k v p assume "(k, v) \<in> set kvs" "p \<in> set ([k] # map ((#) k) (paths v))"
    then show "p \<noteq> [] \<and> hd p = k" by auto
  qed
  then show ?case by simp
qed simp_all


lemma store_nodes_append [simp]: "store_nodes (a @ b) = store_nodes a @ store_nodes b"
  by (simp add: store_nodes_def)

lemma store_nodes_inner:
  "map path (store_nodes (map (\<lambda>(k, n). (k, MNode n)) (generateInnerSelectors (length h) (h @ [init]))))
     = paths init"
proof (cases init)
  case (JObj kvs)
  have e: "(@) [k] = (#) k" for k :: string
    by (rule ext) simp
  have "map path (store_nodes (map (\<lambda>(k, n). (k, MNode n)) (generateInnerSelectors (length h) (h @ [init]))))
      = concat (map (\<lambda>x. map path (all_nodes (createNode (length h) [fst x] (snd x)))) kvs)"
    by (simp add: JObj generateInnerSelectors_new store_nodes_def map_concat comp_def split_def)
  also have "\<dots> = concat (map (\<lambda>x. [fst x] # map ((#) (fst x)) (paths (snd x))) kvs)"
    by (simp add: all_nodes_createNode e)
  also have "\<dots> = paths init"
    by (simp add: JObj split_def)
  finally show ?thesis .
qed (simp_all add: generateInnerSelectors_new store_nodes_def)

lemma hd_paths_stateKeys:
  assumes "p \<in> set (paths v)"
  shows "hd p \<in> stateKeys v"
proof -
  from assms obtain kvs where v: "v = JObj kvs" by (cases v) auto
  from paths_nonempty [OF assms] obtain k ks where p: "p = k # ks" by (cases p) auto
  from assms v p obtain v' where "(k, v') \<in> set kvs"
    unfolding v p paths_Cons_iff by blast
  then have "k \<in> fst ` set kvs" by force
  with v p show ?thesis by (simp add: stateKeys_def)
qed

lemma object_assign_three:
  assumes "distinct (map fst a)" "distinct (map fst b)" "distinct (map fst c)"
    and "fst ` set a \<inter> fst ` set b = {}" "fst ` set a \<inter> fst ` set c = {}"
    and "fst ` set b \<inter> fst ` set c = {}"
  shows "object_assign (object_assign [] (object_assign a b)) c = a @ b @ c"
proof -
  from assms have d1: "distinct (map fst (a @ b))" by auto
  then have d2: "distinct (map fst ([] @ (a @ b)))" by simp
  from assms have d3: "distinct (map fst ((a @ b) @ c))" by auto
  show ?thesis
    using object_assign_distinct [OF d1] object_assign_distinct [OF d2] object_assign_distinct [OF d3]
    by simp
qed

lemma api_createStore_no_collision:
  assumes "wellFormed init" and "stateKeys init \<inter> (rootNames \<union> apiNames) = {}"
  shows "api (createStore init nm) =
     [(''storeName'', MStoreName nm), (''immerStoreApi'', MImmerStoreApi 0),
      (''set'', MSet 0), (''get'', MGet 0), (''use'', MUse 0), (''assign'', MAssign 0 init)]
     @ map (\<lambda>(k, n). (k, MNode n)) (generateInnerSelectors 0 [init])
     @ [(''extend'', MExtend), (''LocalProvider'', MLocalProvider), (''useLocalStore'', MUseLocalStore)]"
proof -
  let ?base = "[(''storeName'', MStoreName nm), (''immerStoreApi'', MImmerStoreApi 0),
      (''set'', MSet 0), (''get'', MGet 0), (''use'', MUse 0), (''assign'', MAssign 0 init)]"
  let ?inner = "map (\<lambda>(k, n). (k, MNode n)) (generateInnerSelectors 0 [init])"
  let ?api = "[(''extend'', MExtend), (''LocalProvider'', MLocalProvider), (''useLocalStore'', MUseLocalStore)]"
  have ki: "fst ` set ?inner = stateKeys init"
    using keys_innerMethods [of "[]" init] by simp
  have di: "distinct (map fst ?inner)"
  proof (cases init)
    case (JObj kvs)
    with assms(1) show ?thesis
      using generateInnerSelectors_new [of "[]" init]
      by (simp add: comp_def split_def)
  qed (simp_all add: generateInnerSelectors_def getState_def)
  have kb: "fst ` set ?base = rootNames" and ka: "fst ` set ?api = apiNames"
    by (auto simp: rootNames_def apiNames_def)
  have "object_assign (object_assign [] (object_assign ?base ?inner)) ?api = ?base @ ?inner @ ?api"
  proof (rule object_assign_three)
    show "distinct (map fst ?base)" "distinct (map fst ?api)" by simp_all
    show "distinct (map fst ?inner)" by (rule di)
    show "fst ` set ?base \<inter> fst ` set ?inner = {}"
      unfolding kb ki using assms(2) by blast
    show "fst ` set ?base \<inter> fst ` set ?api = {}"
      unfolding kb ka by (simp add: rootNames_def apiNames_def)
    show "fst ` set ?inner \<inter> fst ` set ?api = {}"
      unfolding ka ki using assms(2) by blast
  qed
  then show ?thesis
    unfolding api_createStore using fst_createInnerStore [of nm init "[]"] by simp
qed

lemma store_node_cong:
  "map_of s (hd p) = map_of s' (hd p) \<Longrightarrow> store_node s p = store_node s' p"
  by (cases p) (simp_all add: store_node_def)

lemma node_methods_createNode:
  "node_methods (createNode i p v) =
     {''get'', ''use'', ''set''} \<union> (if isObject v then {''assign''} else {})"
  by (simp add: node_methods_def)

section \<open>Computed properties\<close>

lemma map_of_object_assign_defined:
  "k \<in> fst ` set s \<Longrightarrow> \<exists>v. (k, v) \<in> set s \<and> map_of (object_assign t s) k = Some v"
proof (induction s arbitrary: t)
  case Nil
  then show ?case by simp
next
  case (Cons p s)
  obtain k' v' where p: "p = (k', v')" by (cases p)
  show ?case
  proof (cases "k \<in> fst ` set s")
    case True
    from Cons.IH [OF True, of "AList.update k' v' t"] p show ?thesis by auto
  next
    case False
    with Cons.prems p have k: "k = k'" by auto
    from False have "map_of (object_assign (AList.update k' v' t) s) k = map_of (AList.update k' v' t) k"
      by (rule map_of_object_assign_other)
    with k p show ?thesis by (auto simp: update_conv')
  qed
qed

lemma agreeOutside_refl [simp]: "agreeOutside bs s s"
  by (simp add: agreeOutside_def)

lemma agreeOutside_trans: "agreeOutside bs s t \<Longrightarrow> agreeOutside bs t u \<Longrightarrow> agreeOutside bs s u"
  by (simp add: agreeOutside_def)

lemma agreeOutside_sym: "agreeOutside bs s t \<Longrightarrow> agreeOutside bs t s"
  by (simp add: agreeOutside_def)

lemma agreeOutside_step:
  assumes "e \<in> set bs"
  shows "agreeOutside bs s (object_assign s (e s h))"
proof -
  have "map_of s k = map_of (object_assign s (e s h)) k" if "untouched bs k" for k
  proof -
    from that assms have "k \<notin> fst ` set (e s h)"
      by (simp add: untouched_def)
    then show ?thesis by (simp add: map_of_object_assign_other)
  qed
  then show ?thesis by (simp add: agreeOutside_def)
qed

lemma agreeOutside_applyExtensions:
  "set es \<subseteq> set bs \<Longrightarrow> agreeOutside bs s (applyExtensions es h s)"
proof (induction es arbitrary: s)
  case Nil
  then show ?case by simp
next
  case (Cons e es)
  from Cons.prems have "e \<in> set bs" "set es \<subseteq> set bs" by simp_all
  from agreeOutside_step [OF this(1), of s h] Cons.IH [OF this(2), of "object_assign s (e s h)"]
  show ?case by (simp add: agreeOutside_trans)
qed

text \<open>
  The member under \<open>k\<close> is a computed accessor whose derivation function the callback
  made for a store that agrees with \<open>t\<close>.
\<close>

lemma computed_member_step:
  assumes "k \<in> fst ` set (cb s)"
  shows "\<exists>f. (k, f) \<in> set (cb s) \<and> map_of (object_assign s (computed cb s h)) k = Some (MComputed f)"
proof -
  from assms have "k \<in> fst ` set (computed cb s h)"
    by (force simp: computed_def)
  from map_of_object_assign_defined [OF this, of s]
  obtain v where v: "(k, v) \<in> set (computed cb s h)"
    and m: "map_of (object_assign s (computed cb s h)) k = Some v"
    by blast
  from v obtain f where "(k, f) \<in> set (cb s)" "v = MComputed f"
    by (auto simp: computed_def)
  with m show ?thesis by blast
qed

lemma computed_member_applyExtensions:
  assumes "set es \<subseteq> set bs"
    and "\<forall>e\<in>set es. e = computed cb \<or> (\<forall>s h. k \<notin> fst ` set (e s h))"
    and "\<forall>s. k \<in> fst ` set (cb s)"
    and "agreeOutside bs s t"
    and "computed cb \<in> set es
         \<or> (\<exists>acc f. (k, f) \<in> set (cb acc) \<and> agreeOutside bs acc t \<and> map_of s k = Some (MComputed f))"
  shows "\<exists>acc f. (k, f) \<in> set (cb acc) \<and> agreeOutside bs acc t
           \<and> map_of (applyExtensions es h s) k = Some (MComputed f)"
  using assms
proof (induction es arbitrary: s)
  case Nil
  then show ?case by simp
next
  case (Cons e es)
  let ?s' = "object_assign s (e s h)"
  from Cons.prems(1) have eb: "e \<in> set bs" and sub: "set es \<subseteq> set bs" by simp_all
  from Cons.prems(2) have rest: "\<forall>e\<in>set es. e = computed cb \<or> (\<forall>s h. k \<notin> fst ` set (e s h))"
    by simp
  have ag: "agreeOutside bs ?s' t"
    using agreeOutside_step [OF eb, of s h] Cons.prems(4)
    by (blast intro: agreeOutside_trans agreeOutside_sym)
  have "computed cb \<in> set es
      \<or> (\<exists>acc f. (k, f) \<in> set (cb acc) \<and> agreeOutside bs acc t \<and> map_of ?s' k = Some (MComputed f))"
  proof (cases "e = computed cb")
    case True
    from computed_member_step [of k cb s h] Cons.prems(3)
    obtain f where "(k, f) \<in> set (cb s)" "map_of (object_assign s (computed cb s h)) k = Some (MComputed f)"
      by blast
    with True Cons.prems(4) show ?thesis by blast
  next
    case False
    with Cons.prems(2) have "k \<notin> fst ` set (e s h)" by simp
    then have "map_of ?s' k = map_of s k" by (rule map_of_object_assign_other)
    with False Cons.prems(5) show ?thesis by auto
  qed
  from Cons.IH [OF sub rest Cons.prems(3) ag this] show ?case by simp
qed


lemma computed_member_extends:
  assumes "set (extensions w @ bs) \<subseteq> set B"
    and "\<forall>e\<in>set (extensions w @ bs). e = computed cb \<or> (\<forall>s h. k \<notin> fst ` set (e s h))"
    and "\<forall>s. k \<in> fst ` set (cb s)"
    and "agreeOutside B (api w) t"
  shows "agreeOutside B (api (extends bs w)) t
     \<and> (computed cb \<in> set bs
          \<or> (\<exists>acc f. (k, f) \<in> set (cb acc) \<and> agreeOutside B acc t \<and> map_of (api w) k = Some (MComputed f))
        \<longrightarrow> (\<exists>acc f. (k, f) \<in> set (cb acc) \<and> agreeOutside B acc t
               \<and> map_of (api (extends bs w)) k = Some (MComputed f)))"
  using assms
proof (induction bs arbitrary: w)
  case Nil
  then show ?case by simp
next
  case (Cons b bs)
  let ?w1 = "extend b w"
  let ?es = "extensions w @ [b]"
  from Cons.prems(1) have sub: "set ?es \<subseteq> set B" and sub1: "set (extensions ?w1 @ bs) \<subseteq> set B"
    by simp_all
  from Cons.prems(2) have c: "\<forall>e\<in>set ?es. e = computed cb \<or> (\<forall>s h. k \<notin> fst ` set (e s h))"
    and c1: "\<forall>e\<in>set (extensions ?w1 @ bs). e = computed cb \<or> (\<forall>s h. k \<notin> fst ` set (e s h))"
    by simp_all
  have ag1: "agreeOutside B (api ?w1) t"
    using agreeOutside_applyExtensions [OF sub, of "api w" "instances w"] Cons.prems(4)
    by (auto intro: agreeOutside_trans agreeOutside_sym)
  note ih = Cons.IH [OF sub1 c1 Cons.prems(3) ag1]
  have "\<exists>acc f. (k, f) \<in> set (cb acc) \<and> agreeOutside B acc t
               \<and> map_of (api (extends (b # bs) w)) k = Some (MComputed f)"
    if h: "computed cb \<in> set (b # bs)
          \<or> (\<exists>acc f. (k, f) \<in> set (cb acc) \<and> agreeOutside B acc t \<and> map_of (api w) k = Some (MComputed f))"
  proof (cases "computed cb \<in> set bs")
    case True
    with ih show ?thesis by simp
  next
    case False
    with h have "computed cb \<in> set ?es
         \<or> (\<exists>acc f. (k, f) \<in> set (cb acc) \<and> agreeOutside B acc t \<and> map_of (api w) k = Some (MComputed f))"
      by auto
    from computed_member_applyExtensions [OF sub c Cons.prems(3) Cons.prems(4) this, of "instances w"]
    have "\<exists>acc f. (k, f) \<in> set (cb acc) \<and> agreeOutside B acc t \<and> map_of (api ?w1) k = Some (MComputed f)"
      by simp
    with ih show ?thesis by simp
  qed
  with ih show ?case by simp
qed

lemma computed_get_member: "map_of s k = Some (MComputed f) \<Longrightarrow> computed_get s k h = Some (f h)"
  by (simp add: computed_get_def)

text \<open>
  C4. Let a computed property \<open>k\<close> be registered by \<^verbatim>\<open>computed\<close> among other builders
  that do not define \<open>k\<close>. Then on the global store, and on the store of every
  \<^verbatim>\<open>LocalProvider\<close>, \<^verbatim>\<open>get()\<close> of the accessor \<open>k\<close> returns, in every state of
  the instances, the value of the derivation function on that state: the function that the
  callback made for a store with the same accessors as the store it is read from.
\<close>

theorem computed_get_recalculates_from_current_state:
  fixes pre post :: "builder list" and cb :: derivations and init :: jsval and nm :: string
    and iv :: "jsval option" and bs :: "builder list" and w :: world and l :: store
  defines "bs \<equiv> pre @ [computed cb] @ post"
  defines "w \<equiv> extends bs (createStore init nm)"
  defines "l \<equiv> fst (LocalProvider iv w)"
  assumes un: "untouched (pre @ post) k" and dk: "\<forall>s. k \<in> fst ` set (cb s)"
  shows "(\<exists>acc f. (k, f) \<in> set (cb acc) \<and> agreeOutside bs acc (api w)
            \<and> (\<forall>h. computed_get (api w) k h = Some (f h)))
       \<and> (\<exists>acc f. (k, f) \<in> set (cb acc) \<and> agreeOutside bs acc l
            \<and> (\<forall>h. computed_get l k h = Some (f h)))"
proof -
  let ?w0 = "createStore init nm"
  have c: "\<forall>e\<in>set bs. e = computed cb \<or> (\<forall>s h. k \<notin> fst ` set (e s h))"
    using un by (auto simp: bs_def untouched_def)
  have mem: "computed cb \<in> set bs"
    by (simp add: bs_def)
  have "agreeOutside bs (api w) (api ?w0)
     \<and> (computed cb \<in> set bs
          \<or> (\<exists>acc f. (k, f) \<in> set (cb acc) \<and> agreeOutside bs acc (api ?w0) \<and> map_of (api ?w0) k = Some (MComputed f))
        \<longrightarrow> (\<exists>acc f. (k, f) \<in> set (cb acc) \<and> agreeOutside bs acc (api ?w0)
               \<and> map_of (api w) k = Some (MComputed f)))"
    unfolding w_def using c dk by (intro computed_member_extends) simp_all
  with mem obtain acc f where g: "(k, f) \<in> set (cb acc)" "agreeOutside bs acc (api ?w0)"
      "map_of (api w) k = Some (MComputed f)" and gw: "agreeOutside bs (api w) (api ?w0)"
    by blast
  from g(2) gw have "agreeOutside bs acc (api w)"
    by (blast intro: agreeOutside_trans agreeOutside_sym)
  with g have a: "\<exists>acc f. (k, f) \<in> set (cb acc) \<and> agreeOutside bs acc (api w)
            \<and> (\<forall>h. computed_get (api w) k h = Some (f h))"
    by (auto simp: computed_get_member)
  define ls where "ls = fst (createInnerStore nm (mergedInitialState init iv) [init])"
  define lh where "lh = [init, mergedInitialState init iv]"
  have l: "l = applyExtensions bs lh ls"
    by (simp add: l_def w_def fst_LocalProvider ls_def lh_def)
  from computed_member_applyExtensions [of bs bs cb k ls ls lh] c dk mem
  obtain acc' f' where g': "(k, f') \<in> set (cb acc')" "agreeOutside bs acc' ls"
      "map_of l k = Some (MComputed f')"
    unfolding l by auto
  have "agreeOutside bs ls l"
    unfolding l by (rule agreeOutside_applyExtensions) simp
  with g'(2) have "agreeOutside bs acc' l"
    by (rule agreeOutside_trans)
  with g' have b: "\<exists>acc f. (k, f) \<in> set (cb acc) \<and> agreeOutside bs acc l
            \<and> (\<forall>h. computed_get l k h = Some (f h))"
    by (auto simp: computed_get_member)
  from a b show ?thesis ..
qed


text \<open>
  The test \<^verbatim>\<open>computed property updates on action state changes\<close>: 20 at first, 22
  after \<^verbatim>\<open>increment()\<close> has changed the count from 10 to 11, 20 again after
  \<^verbatim>\<open>decrement()\<close>.
\<close>

theorem computed_get_recalculates_from_current_state_witness:
  "computed_get (api (countStore 10)) ''doubled'' (instances (countStore 10)) = Some (JNum 20)
   \<and> instances (act ''increment'' (countStore 10)) = [JObj [(''count'', JNum 11)]]
   \<and> computed_get (api (countStore 10)) ''doubled'' (instances (act ''increment'' (countStore 10)))
        = Some (JNum 22)
   \<and> computed_get (api (countStore 10)) ''doubled''
        (instances (act ''decrement'' (act ''increment'' (countStore 10)))) = Some (JNum 20)"
proof -
  let ?bs = "[] @ [computed doubled] @ [counterActions]"
  let ?w = "extends ?bs (createStore (JObj [(''count'', JNum 10)]) ''count'')"
  have w: "?w = countStore 10"
    by (simp add: countStore_def)
  have un: "untouched ([] @ [counterActions]) ''doubled''"
    by (simp add: untouched_def counterActions_def)
  have dk: "\<forall>s. ''doubled'' \<in> fst ` set (doubled s)"
    by (simp add: doubled_def)
  have uc: "untouched ?bs ''count''"
    by (simp add: untouched_def computed_def doubled_def counterActions_def)
  from computed_get_recalculates_from_current_state [OF un dk, of "JObj [(''count'', JNum 10)]" "''count''" None,
      unfolded w]
  obtain acc f where f: "(''doubled'', f) \<in> set (doubled acc)"
    and ag: "agreeOutside ?bs acc (api (countStore 10))"
    and g: "\<And>h. computed_get (api (countStore 10)) ''doubled'' h = Some (f h)"
    by blast
  from ag uc have "map_of acc ''count'' = map_of (api (countStore 10)) ''count''"
    unfolding agreeOutside_def by blast
  then have "store_node acc [''count''] = store_node (api (countStore 10)) [''count'']"
    by (intro store_node_cong) simp
  moreover have "store_node (api (countStore 10)) [''count''] = Some (Node 0 [''count''] False [])"
    by code_simp
  ultimately have c: "count_of acc = Node 0 [''count''] False []"
    by (simp add: count_of_def)
  from f c have "f = (\<lambda>h. js_times (node_use (Node 0 [''count''] False []) h) (JNum 2))"
    by (simp add: doubled_def)
  with g have r: "computed_get (api (countStore 10)) ''doubled'' h
      = Some (js_times (node_use (Node 0 [''count''] False []) h) (JNum 2))" for h
    by simp
  have i0: "instances (countStore 10) = [JObj [(''count'', JNum 10)]]"
    by (simp add: countStore_def)
  have i1: "instances (act ''increment'' (countStore 10)) = [JObj [(''count'', JNum 11)]]"
    by code_simp
  have i2: "instances (act ''decrement'' (act ''increment'' (countStore 10))) = [JObj [(''count'', JNum 10)]]"
    by code_simp
  show ?thesis
    unfolding r i0 i1 i2 by (simp add: node_use_def node_get_def getState_def)
qed

section \<open>Updates do not write to earlier state values\<close>

lemma cells_ref_immer_setState_value:
  "cells (ref_immer_setState (RefValue v) r) = cells r @ [v]"
  by (simp add: ref_immer_setState_def Let_def)

lemma cells_ref_assign:
  "cells (ref_assign init state r) =
     cells r @ [if isObject init then Object_assign (cells r ! current r) state else state]"
  by (simp add: ref_assign_def ref_immer_setState_def Let_def)

lemma current_ref_immer_setState [simp]:
  "current (ref_immer_setState x r) = length (cells r)"
  by (cases x) (simp_all add: ref_immer_setState_def Let_def)

text \<open>
  C7. \<^verbatim>\<open>set\<close> and \<^verbatim>\<open>assign\<close> hand their update to the immer setState of the
  instance, and the function that \<^verbatim>\<open>assign\<close> passes writes to its draft only. So a
  state value obtained by \<^verbatim>\<open>get()\<close> before an update, and every other value that
  existed then, is the same after \<^verbatim>\<open>assign\<close>, after \<^verbatim>\<open>set\<close> of a value and
  after \<^verbatim>\<open>set\<close> of a function that writes to its draft only; the state after the
  update is a new value in a cell of its own, and it is the value the update computes.
\<close>

theorem updates_leave_earlier_state_values_unchanged:
  assumes "a < length (cells r)"
  shows "ref_setState x r = ref_immer_setState x r
     \<and> ref_assign init state r =
         ref_immer_setState
           (if isObject init then RefRecipe (\<lambda>draft cs. cs[draft := Object_assign (cs ! draft) state])
            else RefValue state) r
     \<and> writesDraftOnly (\<lambda>draft cs. cs[draft := Object_assign (cs ! draft) state])
     \<and> cells (ref_assign init state r) ! a = cells r ! a
     \<and> cells (ref_setState (RefValue v) r) ! a = cells r ! a
     \<and> (writesDraftOnly f \<longrightarrow> cells (ref_setState (RefRecipe f) r) ! a = cells r ! a)
     \<and> ref_getState (ref_assign init state r) = length (cells r)
     \<and> ref_getState (ref_setState x r) = length (cells r)
     \<and> cells (ref_assign init state r) ! ref_getState (ref_assign init state r)
         = getState (assign 0 init state [cells r ! ref_getState r]) 0
     \<and> cells (ref_setState (RefValue v) r) ! ref_getState (ref_setState (RefValue v) r)
         = getState (setState 0 (NewValue v) [cells r ! ref_getState r]) 0"
proof -
  have w: "writesDraftOnly (\<lambda>draft cs. cs[draft := Object_assign (cs ! draft) state])"
    by (simp add: writesDraftOnly_def)
  have c1: "cells (ref_assign init state r) ! a = cells r ! a"
    using assms by (simp add: cells_ref_assign nth_append)
  have c2: "cells (ref_setState (RefValue v) r) ! a = cells r ! a"
    using assms by (simp add: ref_setState_def cells_ref_immer_setState_value nth_append)
  have c3: "cells (ref_setState (RefRecipe f) r) ! a = cells r ! a" if "writesDraftOnly f"
  proof -
    from that assms have "f (length (cells r)) (cells r @ [cells r ! current r]) ! a
        = (cells r @ [cells r ! current r]) ! a"
      unfolding writesDraftOnly_def by (metis nat_neq_iff)
    with assms show ?thesis
      by (simp add: ref_setState_def ref_immer_setState_def Let_def nth_append)
  qed
  have g1: "ref_getState (ref_assign init state r) = length (cells r)"
    by (simp add: ref_getState_def ref_assign_def)
  have g2: "ref_getState (ref_setState y r) = length (cells r)" for y
    by (simp add: ref_getState_def ref_setState_def)
  have r1: "cells (ref_assign init state r) ! ref_getState (ref_assign init state r)
         = getState (assign 0 init state [cells r ! ref_getState r]) 0"
    unfolding g1 by (simp add: cells_ref_assign assign_def immer_setState_def getState_def ref_getState_def)
  have r2: "cells (ref_setState (RefValue v) r) ! ref_getState (ref_setState (RefValue v) r)
         = getState (setState 0 (NewValue v) [cells r ! ref_getState r]) 0"
    unfolding g2
    by (simp add: ref_setState_def cells_ref_immer_setState_value setState_def immer_setState_def getState_def)
  from w c1 c2 c3 g1 g2 r1 r2 show ?thesis
    by (simp add: ref_setState_def ref_assign_def)
qed

text \<open>
  The state \<^verbatim>\<open>{ count: 10 }\<close> obtained by \<^verbatim>\<open>get()\<close>, then
  \<^verbatim>\<open>assign({ count: 11 })\<close>, and a \<^verbatim>\<open>set\<close> with a function.
\<close>

theorem updates_leave_earlier_state_values_unchanged_witness:
  "cells (ref_assign (JObj [(''count'', JNum 10)]) (JObj [(''count'', JNum 11)])
            (RefStore [JObj [(''count'', JNum 10)]] 0))
      ! ref_getState (RefStore [JObj [(''count'', JNum 10)]] 0)
     = JObj [(''count'', JNum 10)]
   \<and> cells (ref_assign (JObj [(''count'', JNum 10)]) (JObj [(''count'', JNum 11)])
            (RefStore [JObj [(''count'', JNum 10)]] 0))
      ! ref_getState (ref_assign (JObj [(''count'', JNum 10)]) (JObj [(''count'', JNum 11)])
            (RefStore [JObj [(''count'', JNum 10)]] 0))
     = JObj [(''count'', JNum 11)]
   \<and> cells (ref_setState (RefRecipe (\<lambda>draft cs. cs[draft := JNum 1]))
            (RefStore [JObj [(''count'', JNum 10)]] 0)) ! 0
     = JObj [(''count'', JNum 10)]"
proof -
  let ?r = "RefStore [JObj [(''count'', JNum 10)]] 0"
  have a: "ref_getState ?r < length (cells ?r)"
    by (simp add: ref_getState_def)
  have w: "writesDraftOnly (\<lambda>draft cs. cs[draft := JNum 1])"
    by (simp add: writesDraftOnly_def)
  have v: "getState (assign 0 (JObj [(''count'', JNum 10)]) (JObj [(''count'', JNum 11)])
      [cells ?r ! ref_getState ?r]) 0 = JObj [(''count'', JNum 11)]"
    by (simp add: assign_def isObject_def immer_setState_def getState_def ref_getState_def)
  note t = updates_leave_earlier_state_values_unchanged [OF a,
      of "RefValue JNull" "JObj [(''count'', JNum 10)]" "JObj [(''count'', JNum 11)]" JNull
         "\<lambda>draft cs. cs[draft := JNum 1]"]
  let ?r' = "ref_assign (JObj [(''count'', JNum 10)]) (JObj [(''count'', JNum 11)]) ?r"
  from t have x1: "cells ?r' ! ref_getState ?r = cells ?r ! ref_getState ?r"
    by blast
  from t have "cells ?r' ! ref_getState ?r'
      = getState (assign 0 (JObj [(''count'', JNum 10)]) (JObj [(''count'', JNum 11)])
          [cells ?r ! ref_getState ?r]) 0"
    by blast
  with v have x2: "cells ?r' ! ref_getState ?r' = JObj [(''count'', JNum 11)]"
    by simp
  from t w have x3: "cells (ref_setState (RefRecipe (\<lambda>draft cs. cs[draft := JNum 1])) ?r) ! ref_getState ?r
      = cells ?r ! ref_getState ?r"
    by blast
  from x1 x2 x3 show ?thesis
    by (simp add: ref_getState_def)
qed

section \<open>Every local instance has its own state\<close>

lemma untouched_mono: "untouched bs' k \<Longrightarrow> set bs \<subseteq> set bs' \<Longrightarrow> untouched bs k"
  unfolding untouched_def by blast

lemma agreeOutside_mono: "agreeOutside bs s t \<Longrightarrow> set bs \<subseteq> set bs' \<Longrightarrow> agreeOutside bs' s t"
  unfolding agreeOutside_def using untouched_mono by blast

lemma snd_LocalProvider:
  "snd (LocalProvider iv w) = w\<lparr> instances := instances w @ [mergedInitialState (initialState w) iv] \<rparr>"
  by (simp add: LocalProvider_def Let_def split_beta)

lemma reachable_inv:
  "reachable w \<Longrightarrow>
     instances w \<noteq> []
   \<and> agreeOutside (extensions w) (api w) (api (createStore (initialState w) (name w)))"
proof (induction rule: reachable.induct)
  case (created init nm)
  show ?case by simp
next
  case (extended w b)
  let ?bs = "extensions w @ [b]"
  have "agreeOutside ?bs (api w) (api (extend b w))"
    using agreeOutside_applyExtensions [of ?bs ?bs "api w" "instances w"] by simp
  moreover from extended.IH have "agreeOutside ?bs (api w) (api (createStore (initialState w) (name w)))"
    by (auto intro: agreeOutside_mono)
  ultimately have "agreeOutside ?bs (api (extend b w)) (api (createStore (initialState w) (name w)))"
    by (blast intro: agreeOutside_trans agreeOutside_sym)
  with extended.IH show ?case by simp
next
  case (provided w iv)
  then show ?case by (simp add: snd_LocalProvider)
next
  case (updated w h)
  then show ?case by auto
qed





lemma reachable_countStore: "reachable (countStore c)"
  unfolding countStore_def by (intro reachable.intros)

lemma extensions_countStore: "extensions (countStore c) = [computed doubled, counterActions]"
  by (simp add: countStore_def)



section \<open>The names on every local store\<close>

lemma surface_api_reachable:
  "reachable w \<Longrightarrow> (\<forall>b\<in>set (extensions w). fixedNames b) \<longrightarrow>
     surface (api w) = rootNames \<union> stateKeys (initialState w) \<union> apiNames
                        \<union> (\<Union>e\<in>set (extensions w). fst ` set (e [] []))"
proof (induction rule: reachable.induct)
  case (created init nm)
  show ?case by (simp add: surface_api_createStore)
next
  case (extended w b)
  show ?case
  proof
    assume fx: "\<forall>e\<in>set (extensions (extend b w)). fixedNames e"
    then have fx': "\<forall>e\<in>set (extensions w @ [b]). fixedNames e" by simp
    with extended.IH have ih: "surface (api w) = rootNames \<union> stateKeys (initialState w) \<union> apiNames
                        \<union> (\<Union>e\<in>set (extensions w). fst ` set (e [] []))"
      by simp
    have "surface (api (extend b w)) = surface (api w) \<union> (\<Union>e\<in>set (extensions w @ [b]). fst ` set (e [] []))"
      using surface_applyExtensions [OF fx', of "instances w" "api w"] by simp
    with ih show "surface (api (extend b w)) = rootNames \<union> stateKeys (initialState (extend b w)) \<union> apiNames
                        \<union> (\<Union>e\<in>set (extensions (extend b w)). fst ` set (e [] []))"
      by auto
  qed
next
  case (provided w iv)
  then show ?case by (simp add: snd_LocalProvider)
next
  case (updated w h)
  then show ?case by simp
qed

lemma surface_local:
  assumes "\<forall>b\<in>set (extensions w). fixedNames b"
  shows "surface (fst (LocalProvider iv w)) =
     rootNames \<union> stateKeys (mergedInitialState (initialState w) iv)
       \<union> (\<Union>e\<in>set (extensions w). fst ` set (e [] []))"
  unfolding fst_LocalProvider surface_applyExtensions [OF assms] surface_createInnerStore ..

lemma descend_createNode_shape:
  "descend (createNode i q v) ks = Some n \<Longrightarrow>
     \<exists>n'. descend (createNode i' q v) ks = Some n' \<and> inst n' = i' \<and> path n' = path n
          \<and> assignable n' = assignable n"
proof (induction ks arbitrary: v q n)
  case Nil
  then show ?case by auto
next
  case (Cons k ks)
  from Cons.prems obtain kvs where v: "v = JObj kvs"
    by (cases v) auto
  with Cons.prems obtain v' where look: "map_of kvs k = Some v'"
    and d: "descend (createNode i (q @ [k]) v') ks = Some n"
    by (auto simp: map_of_map_keyed split: option.splits)
  from Cons.IH [OF d] v look show ?case
    by (simp add: map_of_map_keyed)
qed

lemma global_node_origin:
  assumes "map_of (api (createStore init nm)) k = Some (MNode n0)"
  shows "\<exists>g v. init = JObj g \<and> (k, v) \<in> set g \<and> n0 = createNode 0 [k] v"
proof -
  define base where "base = [(''storeName'', MStoreName nm), (''immerStoreApi'', MImmerStoreApi 0),
      (''set'', MSet 0), (''get'', MGet 0), (''use'', MUse 0), (''assign'', MAssign 0 init)]"
  define inner where "inner = map (\<lambda>(k, n). (k, MNode n)) (generateInnerSelectors 0 [init])"
  define apim where "apim = [(''extend'', MExtend), (''LocalProvider'', MLocalProvider),
      (''useLocalStore'', MUseLocalStore)]"
  have gs: "fst (createInnerStore nm init []) = object_assign base inner"
    using fst_createInnerStore [of nm init "[]"] by (simp add: base_def inner_def)
  have ap: "api (createStore init nm) = object_assign (object_assign [] (object_assign base inner)) apim"
    unfolding api_createStore gs apim_def ..
  from assms have "(k, MNode n0) \<in> set (api (createStore init nm))" by (rule map_of_SomeD)
  moreover have "set (object_assign (object_assign [] (object_assign base inner)) apim)
      \<subseteq> set (object_assign [] (object_assign base inner)) \<union> set apim"
    by (rule set_object_assign_subset)
  moreover have "set (object_assign [] (object_assign base inner)) \<subseteq> set [] \<union> set (object_assign base inner)"
    by (rule set_object_assign_subset)
  moreover have "set (object_assign base inner) \<subseteq> set base \<union> set inner"
    by (rule set_object_assign_subset)
  ultimately have "(k, MNode n0) \<in> set base \<union> set inner \<union> set apim"
    unfolding ap by auto
  moreover have "(k, MNode n0) \<notin> set base" "(k, MNode n0) \<notin> set apim"
    by (simp_all add: base_def apim_def)
  ultimately have mem: "(k, MNode n0) \<in> set inner" by blast
  show ?thesis
  proof (cases init)
    case (JObj g)
    with mem have "(k, MNode n0) \<in> (\<lambda>x. (fst x, MNode (createNode 0 [fst x] (snd x)))) ` set g"
      by (simp add: inner_def generateInnerSelectors_def getState_def split_def)
    then obtain x where "x \<in> set g" "k = fst x" "n0 = createNode 0 [fst x] (snd x)"
      by blast
    then have "(k, snd x) \<in> set g" "n0 = createNode 0 [k] (snd x)" by simp_all
    with JObj show ?thesis by blast
  qed (use mem in \<open>simp_all add: inner_def generateInnerSelectors_def getState_def\<close>)
qed

lemma node_methods_shape: "assignable n' = assignable n \<Longrightarrow> node_methods n' = node_methods n"
  by (simp add: node_methods_def)

lemma local_node_for_global_node:
  assumes re: "reachable w" and wf: "wellFormed (initialState w)"
    and un: "untouched (extensions w) (hd p)"
    and no: "hd p \<notin> fst ` set (own_props (defaultInitialValue iv))"
    and gn: "store_node (api w) p = Some n"
  shows "\<exists>n'. store_node (fst (LocalProvider iv w)) p = Some n' \<and> inst n' = localId w
             \<and> path n' = path n \<and> node_methods n' = node_methods n"
proof -
  let ?init = "initialState w"
  from gn obtain k ks where p: "p = k # ks" by (cases p) (auto simp: store_node_def)
  from reachable_inv [OF re] un p
  have "map_of (api w) k = map_of (api (createStore ?init (name w))) k"
    by (simp add: agreeOutside_def)
  with gn p obtain n0 where m: "map_of (api (createStore ?init (name w))) k = Some (MNode n0)"
    and d: "descend n0 ks = Some n"
    by (auto simp: store_node_def split: option.splits member.splits)
  from global_node_origin [OF m] obtain g v where g: "?init = JObj g" and kv: "(k, v) \<in> set g"
    and n0: "n0 = createNode 0 [k] v"
    by blast
  from wf g have dg: "distinct (map fst g)" by simp
  let ?l = "own_props (defaultInitialValue iv)"
  have mg: "mergedInitialState ?init iv = JObj (spread2 g ?l)"
    by (simp add: mergedInitialState_def g isObject_def)
  from no p have "map_of (spread2 g ?l) k = map_of (object_assign [] g) k"
    unfolding spread2_def by (intro map_of_object_assign_other) simp
  also have "\<dots> = map_of g k"
    using object_assign_distinct [of "[]" g] dg by simp
  also from dg kv have "\<dots> = Some v" by simp
  finally have "(k, v) \<in> set (spread2 g ?l)" by (rule map_of_SomeD)
  moreover have ds: "distinct (map fst (spread2 g ?l))"
    unfolding spread2_def by (intro distinct_object_assign) simp
  ultimately have ln: "map_of (fst (createInnerStore (name w) (JObj (spread2 g ?l)) (instances w))) k
      = Some (MNode (createNode (localId w) [k] v))"
    unfolding localId_def by (intro map_of_createInnerStore_node)
  from un p have "map_of (fst (LocalProvider iv w)) k
      = map_of (fst (createInnerStore (name w) (mergedInitialState ?init iv) (instances w))) k"
    unfolding fst_LocalProvider untouched_def by (intro map_of_applyExtensions_other) simp
  with ln mg have lk: "map_of (fst (LocalProvider iv w)) k = Some (MNode (createNode (localId w) [k] v))"
    by simp
  from d n0 descend_createNode_shape [of 0 "[k]" v ks n "localId w"]
  obtain n' where n': "descend (createNode (localId w) [k] v) ks = Some n'" "inst n' = localId w"
    "path n' = path n" "assignable n' = assignable n"
    by blast
  from n'(4) have "node_methods n' = node_methods n"
    by (rule node_methods_shape)
  moreover from lk p n'(1) have "store_node (fst (LocalProvider iv w)) p = Some n'"
    by (simp add: store_node_def)
  ultimately show ?thesis
    using n'(2,3) by blast
qed

text \<open>
  C1 (as amended). Let \<open>w\<close> be any world the store has reached, let every registered
  builder return the same property names whatever store it is applied to, and let a
  provider create one more local instance. Then every name defined on the global store,
  except the three members that \<^verbatim>\<open>createStore\<close> puts on the api alone, is defined
  on the local store: the names of the generated accessors and the names that every
  builder defines. The nested accessors are there too: for a top-level property that no
  builder redefines and the \<^verbatim>\<open>initialValue\<close> does not override, the local store has
  an accessor node at every path at which the global store has one, bound to the local
  instance and the same path and offering the same methods.
\<close>

theorem local_surface_covers_global:
  fixes w :: world and iv :: "jsval option" and l :: store
  defines "l \<equiv> fst (LocalProvider iv w)"
  assumes re: "reachable w" and fx: "\<forall>b\<in>set (extensions w). fixedNames b"
  shows "surface (api w) \<subseteq> surface l \<union> apiNames
     \<and> stateKeys (initialState w) \<subseteq> surface l
     \<and> (\<forall>b\<in>set (extensions w). \<forall>s h. fst ` set (b s h) \<subseteq> surface l)
     \<and> (\<forall>p n. wellFormed (initialState w) \<and> untouched (extensions w) (hd p)
              \<and> hd p \<notin> fst ` set (own_props (defaultInitialValue iv))
              \<and> store_node (api w) p = Some n
          \<longrightarrow> (\<exists>n'. store_node l p = Some n' \<and> inst n' = localId w
                    \<and> path n' = path n \<and> node_methods n' = node_methods n))"
proof -
  let ?names = "\<Union>e\<in>set (extensions w). fst ` set (e [] [])"
  from surface_api_reachable [OF re] fx
  have g: "surface (api w) = rootNames \<union> stateKeys (initialState w) \<union> apiNames \<union> ?names"
    by blast
  have l: "surface l = rootNames \<union> stateKeys (mergedInitialState (initialState w) iv) \<union> ?names"
    unfolding l_def by (rule surface_local [OF fx])
  note k = stateKeys_mergedInitialState [of "initialState w" iv]
  have a: "surface (api w) \<subseteq> surface l \<union> apiNames"
    unfolding g l using k by blast
  have b: "stateKeys (initialState w) \<subseteq> surface l"
    unfolding l using k by blast
  have c: "\<forall>b\<in>set (extensions w). \<forall>s h. fst ` set (b s h) \<subseteq> surface l"
  proof (intro ballI allI)
    fix b s h
    assume m: "b \<in> set (extensions w)"
    with fx have "fixedNames b" by blast
    then have "fst ` set (b s h) = fst ` set (b [] [])"
      by (rule fixedNames_names)
    moreover from m have "fst ` set (b [] []) \<subseteq> ?names" by blast
    ultimately show "fst ` set (b s h) \<subseteq> surface l"
      unfolding l by blast
  qed
  have d: "\<forall>p n. wellFormed (initialState w) \<and> untouched (extensions w) (hd p)
              \<and> hd p \<notin> fst ` set (own_props (defaultInitialValue iv))
              \<and> store_node (api w) p = Some n
          \<longrightarrow> (\<exists>n'. store_node l p = Some n' \<and> inst n' = localId w
                    \<and> path n' = path n \<and> node_methods n' = node_methods n)"
    unfolding l_def using local_node_for_global_node [OF re] by blast
  show ?thesis
    by (rule conjI [OF a conjI [OF b conjI [OF c d]]])
qed


lemma reachable_profileStore: "reachable profileStore"
  unfolding profileStore_def by (intro reachable.intros)

text \<open>
  The second provider of the profile store, with \<^verbatim>\<open>initialValue={{ count: 1 }}\<close>:
  its store has \<^verbatim>\<open>doubled\<close>, \<^verbatim>\<open>increment\<close> and the nested accessor
  \<^verbatim>\<open>user.name\<close>, bound to instance 2.
\<close>

theorem local_surface_covers_global_witness:
  "surface (api (snd (LocalProvider None profileStore)))
     \<subseteq> surface (fst (LocalProvider (Some (JObj [(''count'', JNum 1)]))
                 (snd (LocalProvider None profileStore)))) \<union> apiNames
   \<and> ''doubled'' \<in> surface (fst (LocalProvider (Some (JObj [(''count'', JNum 1)]))
                 (snd (LocalProvider None profileStore))))
   \<and> ''increment'' \<in> surface (fst (LocalProvider (Some (JObj [(''count'', JNum 1)]))
                 (snd (LocalProvider None profileStore))))
   \<and> ''user'' \<in> surface (fst (LocalProvider (Some (JObj [(''count'', JNum 1)]))
                 (snd (LocalProvider None profileStore))))
   \<and> (\<exists>n'. store_node (fst (LocalProvider (Some (JObj [(''count'', JNum 1)]))
                 (snd (LocalProvider None profileStore)))) [''user'', ''name''] = Some n'
          \<and> inst n' = 2 \<and> path n' = [''user'', ''name'']
          \<and> node_methods n' = {''get'', ''use'', ''set''})"
proof -
  let ?w = "snd (LocalProvider None profileStore)"
  let ?iv = "Some (JObj [(''count'', JNum 1)])"
  let ?l = "fst (LocalProvider ?iv ?w)"
  let ?n = "Node 0 [''user'', ''name''] False []"
  have re: "reachable ?w"
    by (intro reachable.provided reachable_profileStore)
  have ex: "extensions ?w = [computed doubled, counterActions]"
    and ini: "initialState ?w = profileState"
    by (simp_all add: snd_LocalProvider profileStore_def)
  have fx: "\<forall>b\<in>set (extensions ?w). fixedNames b"
    unfolding ex by (simp add: fixedNames_def computed_def doubled_def counterActions_def)
  have n: "fst ` set (computed doubled [] []) = {''doubled''}"
    "fst ` set (counterActions [] []) = {''increment'', ''decrement''}"
    by (simp_all add: computed_def doubled_def counterActions_def)
  have wf: "wellFormed (initialState ?w)"
    unfolding ini by (simp add: profileState_def)
  have un: "untouched (extensions ?w) (hd [''user'', ''name''])"
    unfolding ex by (simp add: untouched_def computed_def doubled_def counterActions_def)
  have no: "hd [''user'', ''name''] \<notin> fst ` set (own_props (defaultInitialValue ?iv))"
    by (simp add: defaultInitialValue_def)
  have gn: "store_node (api ?w) [''user'', ''name''] = Some ?n"
    by code_simp
  have lid: "localId ?w = 2"
    by (simp add: localId_def snd_LocalProvider profileStore_def)
  have nm: "node_methods ?n = {''get'', ''use'', ''set''}" "path ?n = [''user'', ''name'']"
    by (simp_all add: node_methods_def)
  note t = local_surface_covers_global [OF re fx, of ?iv]
  from t have a: "surface (api ?w) \<subseteq> surface ?l \<union> apiNames"
    by (rule conjunct1)
  from t have "stateKeys (initialState ?w) \<subseteq> surface ?l"
    by (rule conjunct2 [THEN conjunct1])
  then have b: "''user'' \<in> surface ?l"
    unfolding ini by (auto simp: stateKeys_def profileState_def)
  note tb = t [THEN conjunct2, THEN conjunct2, THEN conjunct1, unfolded ex]
  from tb have "fst ` set (computed doubled [] []) \<subseteq> surface ?l"
    "fst ` set (counterActions [] []) \<subseteq> surface ?l"
    by simp_all
  with n have c: "''doubled'' \<in> surface ?l" "''increment'' \<in> surface ?l"
    by simp_all
  note tn = t [THEN conjunct2, THEN conjunct2, THEN conjunct2, rule_format,
      of "[''user'', ''name'']" ?n]
  from tn wf un no gn obtain n' where "store_node ?l [''user'', ''name''] = Some n'"
    "inst n' = localId ?w" "path n' = path ?n" "node_methods n' = node_methods ?n"
    by blast
  with lid nm have d: "\<exists>n'. store_node ?l [''user'', ''name''] = Some n'
          \<and> inst n' = 2 \<and> path n' = [''user'', ''name'']
          \<and> node_methods n' = {''get'', ''use'', ''set''}"
    by auto
  from a b c d show ?thesis by blast
qed

text \<open>
  C1 as stated fails in two ways. A builder that looks at the state gives the global store
  of \<^verbatim>\<open>{ admin: true }\<close> the action \<^verbatim>\<open>ban\<close> and the local store of a provider
  with \<^verbatim>\<open>initialValue={{ admin: false }}\<close> none. With no builder at all, the global
  store of \<^verbatim>\<open>{ user: { name: 'Ann' } }\<close> has the accessor \<^verbatim>\<open>user.name\<close> and the
  local store of a provider with \<^verbatim>\<open>initialValue={{ user: null }}\<close> has not.
\<close>

theorem local_store_misses_global_names:
  "''ban'' \<in> surface (api (extend adminOnly (createStore (JObj [(''admin'', JBool True)]) ''s'')))
   \<and> ''ban'' \<notin> apiNames
   \<and> ''ban'' \<notin> surface (fst (LocalProvider (Some (JObj [(''admin'', JBool False)]))
        (extend adminOnly (createStore (JObj [(''admin'', JBool True)]) ''s''))))
   \<and> (\<exists>n. store_node (api (createStore (JObj [(''user'', JObj [(''name'', JStr ''Ann'')])]) ''s''))
          [''user'', ''name''] = Some n)
   \<and> store_node (fst (LocalProvider (Some (JObj [(''user'', JNull)]))
          (createStore (JObj [(''user'', JObj [(''name'', JStr ''Ann'')])]) ''s'')))
        [''user'', ''name''] = None"
proof -
  have m: "mergedInitialState (JObj [(''admin'', JBool True)]) (Some (JObj [(''admin'', JBool False)]))
      = JObj [(''admin'', JBool False)]"
    by (simp add: mergedInitialState_def defaultInitialValue_def isObject_def spread2_def)
  have "api (extend adminOnly (createStore (JObj [(''admin'', JBool True)]) ''s''))
      = object_assign (api (createStore (JObj [(''admin'', JBool True)]) ''s''))
          (adminOnly (api (createStore (JObj [(''admin'', JBool True)]) ''s'')) [JObj [(''admin'', JBool True)]])"
    by simp
  then have a: "''ban'' \<in> surface (api (extend adminOnly (createStore (JObj [(''admin'', JBool True)]) ''s'')))"
    by (simp only: surface_object_assign adminOnly_global) simp
  have b: "''ban'' \<notin> apiNames"
    by (simp add: apiNames_def)
  have c: "''ban'' \<notin> surface (fst (LocalProvider (Some (JObj [(''admin'', JBool False)]))
        (extend adminOnly (createStore (JObj [(''admin'', JBool True)]) ''s''))))"
    by (simp add: fst_LocalProvider m adminOnly_local surface_createInnerStore
        rootNames_def stateKeys_def)
  have d: "store_node (api (createStore (JObj [(''user'', JObj [(''name'', JStr ''Ann'')])]) ''s''))
          [''user'', ''name''] = Some (Node 0 [''user'', ''name''] False [])"
    by code_simp
  have e: "store_node (fst (LocalProvider (Some (JObj [(''user'', JNull)]))
          (createStore (JObj [(''user'', JObj [(''name'', JStr ''Ann'')])]) ''s'')))
        [''user'', ''name''] = None"
    by code_simp
  from a b c d e show ?thesis by simp
qed

section \<open>Builders on the global store and on local stores\<close>

lemma applyExtensions_append:
  "applyExtensions (es @ fs) h s = applyExtensions fs h (applyExtensions es h s)"
  by (simp add: applyExtensions_def)

lemma api_extend:
  "api (extend b w) =
     object_assign (applyExtensions (extensions w) (instances w) (api w))
       (b (applyExtensions (extensions w) (instances w) (api w)) (instances w))"
  by (simp add: extend_def Let_def applyExtensions_snoc)

lemma extend_defines:
  assumes "k \<in> fst ` set (b (applyExtensions (extensions w) (instances w) (api w)) (instances w))"
  shows "\<exists>v. (k, v) \<in> set (b (applyExtensions (extensions w) (instances w) (api w)) (instances w))
            \<and> map_of (api (extend b w)) k = Some v"
  unfolding api_extend using assms by (rule map_of_object_assign_defined)

lemma replay_defines:
  assumes "k \<in> fst ` set (b (applyExtensions pre h s) h)" and "untouched post k"
  shows "\<exists>v. (k, v) \<in> set (b (applyExtensions pre h s) h)
            \<and> map_of (applyExtensions (pre @ b # post) h s) k = Some v"
proof -
  let ?acc = "applyExtensions pre h s"
  have "applyExtensions (pre @ b # post) h s = applyExtensions post h (object_assign ?acc (b ?acc h))"
    by (simp add: applyExtensions_append)
  moreover from assms(2) have "map_of (applyExtensions post h (object_assign ?acc (b ?acc h))) k
      = map_of (object_assign ?acc (b ?acc h)) k"
    unfolding untouched_def by (rule map_of_applyExtensions_other)
  moreover from assms(1) have "\<exists>v. (k, v) \<in> set (b ?acc h) \<and> map_of (object_assign ?acc (b ?acc h)) k = Some v"
    by (rule map_of_object_assign_defined)
  ultimately show ?thesis by simp
qed

text \<open>
  C2. The registry is the sequence of the builders in the order of their registration:
  \<^verbatim>\<open>extend\<close> puts the builder at its end. At that time the builder is applied to
  the global store as the builders before it have left it, and every property it returns
  is then a property of the global store, with the value the builder gave it; the other
  properties stay. A provider replays the registry on the store of its new instance in
  that order: each builder is applied to the local store as the builders before it have
  left it, and a property it returns is a property of the local store, with the value the
  builder gave it, unless a later builder defines it again; the properties that no builder
  defines are those of the new inner store.
\<close>

theorem extensions_applied_and_replayed_in_order:
  fixes w :: world and b :: builder and iv :: "jsval option"
    and acc ls :: store and h' :: heap
  defines "acc \<equiv> applyExtensions (extensions w) (instances w) (api w)"
    and "ls \<equiv> fst (createInnerStore (name w) (mergedInitialState (initialState w) iv) (instances w))"
    and "h' \<equiv> instances (snd (LocalProvider iv w))"
  shows "extensions (extends bs (createStore init nm)) = bs
    \<and> extensions (extend b w) = extensions w @ [b]
    \<and> instances (extend b w) = instances w
    \<and> (\<forall>k\<in>fst ` set (b acc (instances w)).
          \<exists>v. (k, v) \<in> set (b acc (instances w)) \<and> map_of (api (extend b w)) k = Some v)
    \<and> (\<forall>k. k \<notin> fst ` set (b acc (instances w)) \<longrightarrow> map_of (api (extend b w)) k = map_of acc k)
    \<and> (\<forall>pre post k. extensions w = pre @ b # post
            \<and> k \<in> fst ` set (b (applyExtensions pre h' ls) h') \<and> untouched post k
          \<longrightarrow> (\<exists>v. (k, v) \<in> set (b (applyExtensions pre h' ls) h')
                  \<and> map_of (fst (LocalProvider iv w)) k = Some v))
    \<and> (\<forall>k. untouched (extensions w) k \<longrightarrow> map_of (fst (LocalProvider iv w)) k = map_of ls k)"
proof -
  have a: "extensions (extends bs (createStore init nm)) = bs"
    by simp
  have b: "extensions (extend b w) = extensions w @ [b]" "instances (extend b w) = instances w"
    by simp_all
  have c: "\<forall>k\<in>fst ` set (b acc (instances w)).
          \<exists>v. (k, v) \<in> set (b acc (instances w)) \<and> map_of (api (extend b w)) k = Some v"
    unfolding acc_def by (intro ballI extend_defines)
  have d: "\<forall>k. k \<notin> fst ` set (b acc (instances w)) \<longrightarrow> map_of (api (extend b w)) k = map_of acc k"
    unfolding acc_def api_extend by (intro allI impI map_of_object_assign_other)
  have l: "fst (LocalProvider iv w) = applyExtensions (extensions w) h' ls"
    unfolding h'_def ls_def instances_LocalProvider by (rule fst_LocalProvider)
  have e: "\<exists>v. (k, v) \<in> set (b (applyExtensions pre h' ls) h')
                  \<and> map_of (fst (LocalProvider iv w)) k = Some v"
    if "extensions w = pre @ b # post" "k \<in> fst ` set (b (applyExtensions pre h' ls) h')"
      "untouched post k" for pre post k
    unfolding l that(1) using that(2,3) by (rule replay_defines)
  have f: "\<forall>k. untouched (extensions w) k \<longrightarrow> map_of (fst (LocalProvider iv w)) k = map_of ls k"
    unfolding l untouched_def by (intro allI impI map_of_applyExtensions_other)
  from e have e': "\<forall>pre post k. extensions w = pre @ b # post
            \<and> k \<in> fst ` set (b (applyExtensions pre h' ls) h') \<and> untouched post k
          \<longrightarrow> (\<exists>v. (k, v) \<in> set (b (applyExtensions pre h' ls) h')
                  \<and> map_of (fst (LocalProvider iv w)) k = Some v)"
    by blast
  show ?thesis
    by (rule conjI [OF a conjI [OF b(1) conjI [OF b(2) conjI [OF c conjI [OF d conjI [OF e' f]]]]]])
qed


text \<open>
  The two builders that both define \<^verbatim>\<open>tag\<close>: on the global store and on the store
  of a provider the second one wins, and \<^verbatim>\<open>one\<close> of the first builder stays.
\<close>

theorem extensions_applied_and_replayed_in_order_witness:
  "extensions taggedStore = [tagFirst, tagSecond]
   \<and> map_of (api taggedStore) ''tag'' = Some (MValue (JStr ''second''))
   \<and> map_of (api taggedStore) ''one'' = Some (MValue (JNum 1))
   \<and> map_of (fst (LocalProvider None taggedStore)) ''tag'' = Some (MValue (JStr ''second''))
   \<and> map_of (fst (LocalProvider None taggedStore)) ''one'' = Some (MValue (JNum 1))
   \<and> map_of (fst (LocalProvider None taggedStore)) ''set'' = Some (MSet 1)"
proof -
  let ?w0 = "createStore (JObj [(''count'', JNum 0)]) ''tagged''"
  let ?w1 = "extend tagFirst ?w0"
  have w: "taggedStore = extend tagSecond ?w1"
    by (simp add: taggedStore_def)
  have ex: "extensions taggedStore = [] @ tagFirst # [tagSecond]"
    "extensions taggedStore = [tagFirst] @ tagSecond # []"
    by (simp_all add: w)
  have b1: "tagFirst s h = [(''tag'', MValue (JStr ''first'')), (''one'', MValue (JNum 1))]"
    and b2: "tagSecond s h = [(''tag'', MValue (JStr ''second''))]" for s h
    by (simp_all add: tagFirst_def tagSecond_def fixedProps_def)
  have u: "untouched [tagSecond] ''one''" "untouched [] ''tag''"
    "untouched (extensions taggedStore) ''set''"
    by (simp_all add: untouched_def w b1 b2)
  note g = extensions_applied_and_replayed_in_order [where w = ?w1 and b = tagSecond and iv = None
      and bs = "[tagFirst, tagSecond]" and init = "JObj [(''count'', JNum 0)]" and nm = "''tagged''"]
  note l1 = extensions_applied_and_replayed_in_order [where w = taggedStore and b = tagFirst
      and iv = None and bs = "[]" and init = JNull and nm = "[]"]
  note l2 = extensions_applied_and_replayed_in_order [where w = taggedStore and b = tagSecond
      and iv = None and bs = "[]" and init = JNull and nm = "[]"]
  from g have a: "extensions taggedStore = [tagFirst, tagSecond]"
    by (simp add: w)
  from g [THEN conjunct2, THEN conjunct2, THEN conjunct2, THEN conjunct1, rule_format, of "''tag''"]
  have b: "map_of (api taggedStore) ''tag'' = Some (MValue (JStr ''second''))"
    by (auto simp: b2 w)
  have "map_of (api ?w1) ''one'' = Some (MValue (JNum 1))"
    by (simp add: api_extend b1 update_conv')
  then have "map_of (applyExtensions (extensions ?w1) (instances ?w1) (api ?w1)) ''one''
      = Some (MValue (JNum 1))"
    by (simp add: b1 update_conv')
  with g [THEN conjunct2, THEN conjunct2, THEN conjunct2, THEN conjunct2, THEN conjunct1,
      rule_format, of "''one''"]
  have c: "map_of (api taggedStore) ''one'' = Some (MValue (JNum 1))"
    by (simp add: b2 w)
  note r = conjunct2 [THEN conjunct2, THEN conjunct2, THEN conjunct2, THEN conjunct2]
  from l2 [THEN r, THEN conjunct1, rule_format, of "[tagFirst]" "[]" "''tag''"] ex(2) u(2)
  have d: "map_of (fst (LocalProvider None taggedStore)) ''tag'' = Some (MValue (JStr ''second''))"
    by (auto simp: b2)
  from l1 [THEN r, THEN conjunct1, rule_format, of "[]" "[tagSecond]" "''one''"] ex(1) u(1)
  have e: "map_of (fst (LocalProvider None taggedStore)) ''one'' = Some (MValue (JNum 1))"
    by (auto simp: b1)
  from l1 [THEN r, THEN conjunct2, rule_format, of "''set''"] u(3)
  have "map_of (fst (LocalProvider None taggedStore)) ''set''
      = map_of (fst (createInnerStore (name taggedStore)
            (mergedInitialState (initialState taggedStore) None) (instances taggedStore))) ''set''"
    by simp
  also have "\<dots> = Some (MSet 1)"
    by (simp add: w map_of_createInnerStore_root stateKeys_def mergedInitialState_def
        defaultInitialValue_def isObject_def spread2_def)
  finally have f: "map_of (fst (LocalProvider None taggedStore)) ''set'' = Some (MSet 1)" .
  show ?thesis
    by (rule conjI [OF a conjI [OF b conjI [OF c conjI [OF d conjI [OF e f]]]]])
qed

section \<open>Root accessors after builders\<close>

lemma map_of_api_reachable_root:
  assumes "reachable w" and "untouched (extensions w) k" and "k \<notin> stateKeys (initialState w)"
    and "k \<notin> apiNames"
  shows "map_of (api w) k =
     map_of [(''storeName'', MStoreName (name w)), (''immerStoreApi'', MImmerStoreApi globalId),
        (''set'', MSet globalId), (''get'', MGet globalId), (''use'', MUse globalId),
        (''assign'', MAssign globalId (initialState w))] k"
proof -
  from reachable_inv [OF assms(1)] assms(2)
  have "map_of (api w) k = map_of (api (createStore (initialState w) (name w))) k"
    by (simp add: agreeOutside_def)
  also from assms(4) have "\<dots> = map_of (fst (createInnerStore (name w) (initialState w) [])) k"
    by (rule map_of_api_createStore)
  also from assms(3) have "\<dots> =
     map_of [(''storeName'', MStoreName (name w)), (''immerStoreApi'', MImmerStoreApi globalId),
        (''set'', MSet globalId), (''get'', MGet globalId), (''use'', MUse globalId),
        (''assign'', MAssign globalId (initialState w))] k"
    unfolding globalId_def using map_of_createInnerStore_root [of k "initialState w" "name w" "[]"]
    by simp
  finally show ?thesis .
qed

lemma map_of_local_root:
  assumes "untouched (extensions w) k" and "k \<notin> stateKeys (mergedInitialState (initialState w) iv)"
  shows "map_of (fst (LocalProvider iv w)) k =
     map_of [(''storeName'', MStoreName (name w)), (''immerStoreApi'', MImmerStoreApi (localId w)),
        (''set'', MSet (localId w)), (''get'', MGet (localId w)), (''use'', MUse (localId w)),
        (''assign'', MAssign (localId w) (mergedInitialState (initialState w) iv))] k"
proof -
  let ?st = "fst (createInnerStore (name w) (mergedInitialState (initialState w) iv) (instances w))"
  from assms(1) have "map_of (fst (LocalProvider iv w)) k = map_of ?st k"
    unfolding fst_LocalProvider untouched_def by (intro map_of_applyExtensions_other) simp
  also from assms(2) have "\<dots> =
     map_of [(''storeName'', MStoreName (name w)), (''immerStoreApi'', MImmerStoreApi (localId w)),
        (''set'', MSet (localId w)), (''get'', MGet (localId w)), (''use'', MUse (localId w)),
        (''assign'', MAssign (localId w) (mergedInitialState (initialState w) iv))] k"
    unfolding localId_def by (rule map_of_createInnerStore_root)
  finally show ?thesis .
qed

section \<open>The assign accessor\<close>

lemma stateKeys_nonobject: "\<not> isObject init \<Longrightarrow> stateKeys init = {}"
  by (cases init) (simp_all add: stateKeys_def isObject_def)

lemma store_assign_createInnerStore:
  "''assign'' \<notin> stateKeys init \<Longrightarrow>
     store_assign (fst (createInnerStore nm init h0)) partial h = Some (assign (length h0) init partial h)"
  by (simp add: store_assign_def map_of_createInnerStore_root)

lemma store_set_createInnerStore:
  "''set'' \<notin> stateKeys init \<Longrightarrow>
     store_set (fst (createInnerStore nm init h0)) a h = Some (setState (length h0) a h)"
  by (simp add: store_set_def map_of_createInnerStore_root)

lemma store_assign_api_createStore:
  "''assign'' \<notin> stateKeys init \<Longrightarrow>
     store_assign (api (createStore init nm)) partial h = Some (assign globalId init partial h)"
  by (simp add: store_assign_def map_of_api_createStore map_of_createInnerStore_root apiNames_def
      globalId_def)

text \<open>
  C5 (as amended). The root accessor: on a store whose state has no top-level property
  named \<^verbatim>\<open>assign\<close>, \<^verbatim>\<open>store.assign(partial)\<close> is the \<^verbatim>\<open>assign\<close> of
  \<^verbatim>\<open>createInnerStore\<close>: on the store of any instance as created, on the global
  api, and, as long as no builder redefines \<^verbatim>\<open>assign\<close>, on the global store in
  every world the store reaches and on the store of every provider. When the initial state is an object it merges the properties of the partial into
  the current object state, property by property, and leaves the other instances as they
  are. When the initial state is not an object the root offers \<^verbatim>\<open>assign\<close> all the
  same: it does what \<^verbatim>\<open>set\<close> does with that argument, and the argument becomes the
  whole state. The accessor nodes: a node offers \<^verbatim>\<open>assign\<close> exactly when the initial
  value at its path is an object; at any other path there is no \<^verbatim>\<open>assign\<close> to call,
  and at an object path \<^verbatim>\<open>assign\<close> merges the partial into the object at the path.
\<close>

theorem assign_merges_at_object_paths:
  "(''assign'' \<notin> stateKeys init \<longrightarrow>
      store_assign (fst (createInnerStore nm init h0)) partial h = Some (assign (length h0) init partial h)
      \<and> store_assign (api (createStore init nm)) partial h = Some (assign globalId init partial h))
   \<and> (isObject init \<and> i < length h \<and> h ! i = JObj kvs \<longrightarrow>
        getState (assign i init partial h) i = JObj (object_assign kvs (own_props partial))
        \<and> (\<forall>j. j \<noteq> i \<longrightarrow> getState (assign i init partial h) j = getState h j))
   \<and> (distinct (map fst (own_props partial)) \<longrightarrow>
        (\<forall>k. map_of (object_assign kvs (own_props partial)) k =
               (case map_of (own_props partial) k of Some v \<Rightarrow> Some v | None \<Rightarrow> map_of kvs k)))
   \<and> (\<not> isObject init \<longrightarrow>
        store_assign (fst (createInnerStore nm init h0)) partial h
          = store_set (fst (createInnerStore nm init h0)) (NewValue partial) h
        \<and> store_assign (fst (createInnerStore nm init h0)) partial h
          = Some (setState (length h0) (NewValue partial) h)
        \<and> (length h0 < length h \<longrightarrow> getState (setState (length h0) (NewValue partial) h) (length h0) = partial))
   \<and> (wellFormed init \<and> p \<in> set (paths init) \<longrightarrow>
        (\<exists>n. store_node (fst (createInnerStore nm init h0)) p = Some n
            \<and> inst n = length h0 \<and> path n = p
            \<and> (''assign'' \<in> node_methods n \<longleftrightarrow> isObject (get_in init p))
            \<and> (\<not> isObject (get_in init p) \<longrightarrow> node_assign n partial s = None)
            \<and> (isObject (get_in init p) \<and> length h0 < length s \<and> get_in (s ! length h0) p = JObj kvs \<longrightarrow>
                 (\<exists>s'. node_assign n partial s = Some s'
                     \<and> get_in (getState s' (length h0)) p = JObj (object_assign kvs (own_props partial))))))
   \<and> (reachable w \<and> untouched (extensions w) ''assign'' \<longrightarrow>
        (''assign'' \<notin> stateKeys (initialState w) \<longrightarrow>
           store_assign (api w) partial h = Some (assign globalId (initialState w) partial h))
        \<and> (''assign'' \<notin> stateKeys (mergedInitialState (initialState w) iv) \<longrightarrow>
             store_assign (fst (LocalProvider iv w)) partial h
               = Some (assign (localId w) (mergedInitialState (initialState w) iv) partial h)))"
proof -
  let ?st = "fst (createInnerStore nm init h0)"
  have g: "(''assign'' \<notin> stateKeys (initialState w) \<longrightarrow>
           store_assign (api w) partial h = Some (assign globalId (initialState w) partial h))
        \<and> (''assign'' \<notin> stateKeys (mergedInitialState (initialState w) iv) \<longrightarrow>
             store_assign (fst (LocalProvider iv w)) partial h
               = Some (assign (localId w) (mergedInitialState (initialState w) iv) partial h))"
    if re: "reachable w" and un: "untouched (extensions w) ''assign''"
  proof -
    have na: "''assign'' \<notin> apiNames" by (simp add: apiNames_def)
    have "store_assign (api w) partial h = Some (assign globalId (initialState w) partial h)"
      if "''assign'' \<notin> stateKeys (initialState w)"
      using map_of_api_reachable_root [OF re un that na] by (simp add: store_assign_def)
    moreover have "store_assign (fst (LocalProvider iv w)) partial h
               = Some (assign (localId w) (mergedInitialState (initialState w) iv) partial h)"
      if "''assign'' \<notin> stateKeys (mergedInitialState (initialState w) iv)"
      using map_of_local_root [OF un that] by (simp add: store_assign_def)
    ultimately show ?thesis by blast
  qed
  have r: "store_assign ?st partial h = Some (assign (length h0) init partial h)
      \<and> store_assign (api (createStore init nm)) partial h = Some (assign globalId init partial h)"
    if "''assign'' \<notin> stateKeys init"
    using that by (simp add: store_assign_createInnerStore store_assign_api_createStore)
  have a: "getState (assign i init partial h) i = JObj (object_assign kvs (own_props partial))
        \<and> (\<forall>j. j \<noteq> i \<longrightarrow> getState (assign i init partial h) j = getState h j)"
    if "isObject init" "i < length h" "h ! i = JObj kvs"
    using that by (simp add: assign_def getState_immer_setState_same getState_immer_setState_other)
  have b: "map_of (object_assign kvs (own_props partial)) k =
             (case map_of (own_props partial) k of Some v \<Rightarrow> Some v | None \<Rightarrow> map_of kvs k)"
    if "distinct (map fst (own_props partial))" for k
    using that by (simp add: map_of_object_assign map_add_def)
  have n: "store_assign ?st partial h = store_set ?st (NewValue partial) h
        \<and> store_assign ?st partial h = Some (setState (length h0) (NewValue partial) h)
        \<and> (length h0 < length h \<longrightarrow> getState (setState (length h0) (NewValue partial) h) (length h0) = partial)"
    if no: "\<not> isObject init"
  proof -
    from no have k: "''assign'' \<notin> stateKeys init" "''set'' \<notin> stateKeys init"
      by (simp_all add: stateKeys_nonobject)
    from no have "assign (length h0) init partial h = setState (length h0) (NewValue partial) h"
      by (simp add: assign_def setState_def)
    with k show ?thesis
      by (simp add: store_assign_createInnerStore store_set_createInnerStore)
        (simp add: setState_def getState_immer_setState_same)
  qed
  have c: "\<exists>n. store_node ?st p = Some n
            \<and> inst n = length h0 \<and> path n = p
            \<and> (''assign'' \<in> node_methods n \<longleftrightarrow> isObject (get_in init p))
            \<and> (\<not> isObject (get_in init p) \<longrightarrow> node_assign n partial s = None)
            \<and> (isObject (get_in init p) \<and> length h0 < length s \<and> get_in (s ! length h0) p = JObj kvs \<longrightarrow>
                 (\<exists>s'. node_assign n partial s = Some s'
                     \<and> get_in (getState s' (length h0)) p = JObj (object_assign kvs (own_props partial))))"
    if w: "wellFormed init" and p: "p \<in> set (paths init)"
  proof -
    let ?n = "createNode (length h0) p (get_in init p)"
    have "store_node ?st p = Some ?n"
      by (rule store_node_createInnerStore [OF w p])
    moreover have "\<exists>s'. node_assign ?n partial s = Some s'
        \<and> get_in (getState s' (length h0)) p = JObj (object_assign kvs (own_props partial))"
      if "isObject (get_in init p)" "length h0 < length s" "get_in (s ! length h0) p = JObj kvs"
      using node_assign_merges [of ?n s kvs partial] that by simp
    moreover have "node_assign ?n partial s = None" if "\<not> isObject (get_in init p)"
      using that by (simp add: node_assign_def)
    moreover have "''assign'' \<in> node_methods ?n \<longleftrightarrow> isObject (get_in init p)"
      by (simp add: node_methods_createNode)
    ultimately show ?thesis by simp
  qed
  from r have r': "''assign'' \<notin> stateKeys init \<longrightarrow>
      store_assign ?st partial h = Some (assign (length h0) init partial h)
      \<and> store_assign (api (createStore init nm)) partial h = Some (assign globalId init partial h)"
    by blast
  from a have a': "isObject init \<and> i < length h \<and> h ! i = JObj kvs \<longrightarrow>
        getState (assign i init partial h) i = JObj (object_assign kvs (own_props partial))
        \<and> (\<forall>j. j \<noteq> i \<longrightarrow> getState (assign i init partial h) j = getState h j)"
    by blast
  from b have b': "distinct (map fst (own_props partial)) \<longrightarrow>
        (\<forall>k. map_of (object_assign kvs (own_props partial)) k =
               (case map_of (own_props partial) k of Some v \<Rightarrow> Some v | None \<Rightarrow> map_of kvs k))"
    by blast
  from n have n': "\<not> isObject init \<longrightarrow>
        store_assign ?st partial h = store_set ?st (NewValue partial) h
        \<and> store_assign ?st partial h = Some (setState (length h0) (NewValue partial) h)
        \<and> (length h0 < length h \<longrightarrow> getState (setState (length h0) (NewValue partial) h) (length h0) = partial)"
    by blast
  from c have c': "wellFormed init \<and> p \<in> set (paths init) \<longrightarrow>
        (\<exists>n. store_node ?st p = Some n
            \<and> inst n = length h0 \<and> path n = p
            \<and> (''assign'' \<in> node_methods n \<longleftrightarrow> isObject (get_in init p))
            \<and> (\<not> isObject (get_in init p) \<longrightarrow> node_assign n partial s = None)
            \<and> (isObject (get_in init p) \<and> length h0 < length s \<and> get_in (s ! length h0) p = JObj kvs \<longrightarrow>
                 (\<exists>s'. node_assign n partial s = Some s'
                     \<and> get_in (getState s' (length h0)) p = JObj (object_assign kvs (own_props partial)))))"
    by blast
  from g have g': "reachable w \<and> untouched (extensions w) ''assign'' \<longrightarrow>
        (''assign'' \<notin> stateKeys (initialState w) \<longrightarrow>
           store_assign (api w) partial h = Some (assign globalId (initialState w) partial h))
        \<and> (''assign'' \<notin> stateKeys (mergedInitialState (initialState w) iv) \<longrightarrow>
             store_assign (fst (LocalProvider iv w)) partial h
               = Some (assign (localId w) (mergedInitialState (initialState w) iv) partial h))"
    by blast
  show ?thesis
    by (rule conjI [OF r' conjI [OF a' conjI [OF b' conjI [OF n' conjI [OF c' g']]]]])
qed

text \<open>
  C5 as stated fails at the root in both directions. The state of \<^verbatim>\<open>store(0)\<close> is
  not an object, and the store offers \<^verbatim>\<open>assign\<close>, which sets the state to its
  argument. The state of \<^verbatim>\<open>store({ assign: 1 })\<close> is an object, and
  \<^verbatim>\<open>store.assign\<close> is the accessor of the property \<^verbatim>\<open>assign\<close>, which is spread
  over the root accessors: there is no root \<^verbatim>\<open>assign\<close> to merge with.
\<close>

theorem root_assign_on_number_store:
  "\<not> isObject (JNum 0)
   \<and> ''assign'' \<in> surface (api (createStore (JNum 0) ''n''))
   \<and> store_assign (api (createStore (JNum 0) ''n'')) (JNum 5) (instances (createStore (JNum 0) ''n''))
       = Some [JNum 5]
   \<and> isObject (JObj [(''assign'', JNum 1)])
   \<and> store_assign (api (createStore (JObj [(''assign'', JNum 1)]) ''a'')) (JObj [(''assign'', JNum 2)])
        (instances (createStore (JObj [(''assign'', JNum 1)]) ''a'')) = None"
proof -
  have n: "\<not> isObject (JNum 0)" by (simp add: isObject_def)
  have "store_assign (api (createStore (JNum 0) ''n'')) (JNum 5) [JNum 0] = Some [JNum 5]"
    using root_assign_createStore(1) [OF n, of "''n''"]
    by (simp add: store_assign_def assign_def isObject_def immer_setState_def globalId_def)
  with n have a: "\<not> isObject (JNum 0)
   \<and> ''assign'' \<in> surface (api (createStore (JNum 0) ''n''))
   \<and> store_assign (api (createStore (JNum 0) ''n'')) (JNum 5) (instances (createStore (JNum 0) ''n''))
       = Some [JNum 5]"
    by (simp add: surface_api_createStore rootNames_def)
  have b: "isObject (JObj [(''assign'', JNum 1)])"
    by (simp add: isObject_def)
  have c: "store_assign (api (createStore (JObj [(''assign'', JNum 1)]) ''a'')) (JObj [(''assign'', JNum 2)])
        (instances (createStore (JObj [(''assign'', JNum 1)]) ''a'')) = None"
    by code_simp
  from a b c show ?thesis by simp
qed

text \<open>
  The documentation's \<^verbatim>\<open>userStore.assign({ name: 'Jane', age: 30 })\<close> and
  \<^verbatim>\<open>userStore.address.assign({ street: '456 Elm St', city: 'Newtown' })\<close>; a store
  of an array, where \<^verbatim>\<open>assign\<close> and \<^verbatim>\<open>set\<close> both replace the state; and the
  leaf \<^verbatim>\<open>address.city\<close>, which has no \<^verbatim>\<open>assign\<close>; and the root
  \<^verbatim>\<open>assign\<close> of a provider's store of the counter store.
\<close>

theorem assign_merges_at_object_paths_witness:
  "(\<exists>h'. store_assign (api (createStore userState ''user''))
            (JObj [(''name'', JStr ''Jane''), (''age'', JNum 30)]) [userState] = Some h'
       \<and> getState h' 0
           = JObj [(''name'', JStr ''Jane''), (''age'', JNum 30),
                   (''address'', JObj [(''street'', JStr ''123 Main St''), (''city'', JStr ''Anytown'')])])
   \<and> store_assign (fst (createInnerStore ''list'' (JArr [JNum 1]) [])) (JArr [JNum 2, JNum 3]) [JArr [JNum 1]]
       = Some [JArr [JNum 2, JNum 3]]
   \<and> store_set (fst (createInnerStore ''list'' (JArr [JNum 1]) [])) (NewValue (JArr [JNum 2, JNum 3])) [JArr [JNum 1]]
       = Some [JArr [JNum 2, JNum 3]]
   \<and> (\<exists>n s'. store_node (fst (createInnerStore ''user'' userState [])) [''address''] = Some n
        \<and> ''assign'' \<in> node_methods n
        \<and> node_assign n (JObj [(''street'', JStr ''456 Elm St''), (''city'', JStr ''Newtown'')])
              [userState] = Some s'
        \<and> get_in (getState s' 0) [''address'']
              = JObj [(''street'', JStr ''456 Elm St''), (''city'', JStr ''Newtown'')])
   \<and> (\<exists>n. store_node (fst (createInnerStore ''user'' userState [])) [''address'', ''city''] = Some n
        \<and> ''assign'' \<notin> node_methods n
        \<and> node_assign n (JObj [(''zip'', JStr ''1'')]) [userState] = None)
   \<and> store_assign (fst (LocalProvider (Some (JObj [(''count'', JNum 5)])) (countStore 10)))
         (JObj [(''count'', JNum 7)]) [JObj [(''count'', JNum 10)], JObj [(''count'', JNum 5)]]
       = Some [JObj [(''count'', JNum 10)], JObj [(''count'', JNum 7)]]"
proof -
  let ?a = "[(''street'', JStr ''123 Main St''), (''city'', JStr ''Anytown'')]"
  let ?u = "[(''name'', JStr ''John''), (''age'', JNum 25), (''address'', JObj ?a)]"
  let ?p1 = "JObj [(''name'', JStr ''Jane''), (''age'', JNum 30)]"
  let ?p2 = "JObj [(''street'', JStr ''456 Elm St''), (''city'', JStr ''Newtown'')]"
  let ?p3 = "JObj [(''zip'', JStr ''1'')]"
  have u: "userState = JObj ?u" by (simp add: userState_def)
  have h1: "''assign'' \<notin> stateKeys userState" "isObject userState" "(0::nat) < length [userState]"
    "[userState] ! 0 = JObj ?u"
    by (simp_all add: u isObject_def stateKeys_def)
  have h2: "wellFormed userState" "[''address''] \<in> set (paths userState)"
    "isObject (get_in userState [''address''])" "length ([]::heap) < length [userState]"
    "get_in ([userState] ! length ([]::heap)) [''address''] = JObj ?a"
    by (simp_all add: u isObject_def)
  have h3: "[''address'', ''city''] \<in> set (paths userState)"
    "\<not> isObject (get_in userState [''address'', ''city''])"
    by (simp_all add: u isObject_def)
  have h4: "\<not> isObject (JArr [JNum 1])"
    by (simp add: isObject_def)
  have m1: "object_assign ?u (own_props ?p1) =
      [(''name'', JStr ''Jane''), (''age'', JNum 30), (''address'', JObj ?a)]"
    by simp
  have m2: "object_assign ?a (own_props ?p2) =
      [(''street'', JStr ''456 Elm St''), (''city'', JStr ''Newtown'')]"
    by simp
  note t1 = assign_merges_at_object_paths [where init = userState and i = 0 and h = "[userState]"
      and kvs = ?u and partial = ?p1 and p = "[]" and nm = "''user''" and ?h0.0 = "[]"
      and s = "[]"]
  from t1 [THEN conjunct1] h1(1)
  have "store_assign (api (createStore userState ''user'')) ?p1 [userState]
      = Some (assign 0 userState ?p1 [userState])"
    by (simp add: globalId_def)
  moreover from t1 [THEN conjunct2, THEN conjunct1] h1 m1
  have "getState (assign 0 userState ?p1 [userState]) 0 =
      JObj [(''name'', JStr ''Jane''), (''age'', JNum 30), (''address'', JObj ?a)]"
    by simp
  ultimately have r1: "\<exists>h'. store_assign (api (createStore userState ''user'')) ?p1 [userState] = Some h'
       \<and> getState h' 0 = JObj [(''name'', JStr ''Jane''), (''age'', JNum 30), (''address'', JObj ?a)]"
    by simp
  note t2 = assign_merges_at_object_paths [where init = "JArr [JNum 1]" and nm = "''list''"
      and ?h0.0 = "[]" and partial = "JArr [JNum 2, JNum 3]" and h = "[JArr [JNum 1]]"
      and i = 0 and kvs = "[]" and p = "[]" and s = "[]"]
  note t2' = t2 [THEN conjunct2, THEN conjunct2, THEN conjunct2, THEN conjunct1, rule_format, OF h4]
  have sv: "setState (length ([]::heap)) (NewValue (JArr [JNum 2, JNum 3])) [JArr [JNum 1]]
      = [JArr [JNum 2, JNum 3]]"
    by (simp add: setState_def immer_setState_def)
  from t2' [THEN conjunct2, THEN conjunct1]
  have r2a: "store_assign (fst (createInnerStore ''list'' (JArr [JNum 1]) [])) (JArr [JNum 2, JNum 3]) [JArr [JNum 1]]
       = Some [JArr [JNum 2, JNum 3]]"
    unfolding sv .
  from t2' [THEN conjunct1] r2a
  have r2b: "store_set (fst (createInnerStore ''list'' (JArr [JNum 1]) [])) (NewValue (JArr [JNum 2, JNum 3])) [JArr [JNum 1]]
       = Some [JArr [JNum 2, JNum 3]]"
    by (rule subst)
  note r = conjunct2 [THEN conjunct2, THEN conjunct2, THEN conjunct2, THEN conjunct1]
  note r6 = conjunct2 [THEN conjunct2, THEN conjunct2, THEN conjunct2, THEN conjunct2]
  from assign_merges_at_object_paths [where init = userState and p = "[''address'']"
      and nm = "''user''" and ?h0.0 = "[]" and s = "[userState]" and kvs = ?a and partial = ?p2
      and i = 0 and h = "[]", THEN r]
    h2 m2
  have r3: "\<exists>n s'. store_node (fst (createInnerStore ''user'' userState [])) [''address''] = Some n
        \<and> ''assign'' \<in> node_methods n
        \<and> node_assign n ?p2 [userState] = Some s'
        \<and> get_in (getState s' 0) [''address'']
              = JObj [(''street'', JStr ''456 Elm St''), (''city'', JStr ''Newtown'')]"
    by auto
  from assign_merges_at_object_paths [where init = userState and p = "[''address'', ''city'']"
      and nm = "''user''" and ?h0.0 = "[]" and s = "[userState]" and kvs = "[]" and partial = ?p3
      and i = 0 and h = "[]", THEN r]
    h2(1) h3
  have r4: "\<exists>n. store_node (fst (createInnerStore ''user'' userState [])) [''address'', ''city''] = Some n
        \<and> ''assign'' \<notin> node_methods n
        \<and> node_assign n ?p3 [userState] = None"
    by auto
  let ?iv = "Some (JObj [(''count'', JNum 5)])"
  have un: "untouched (extensions (countStore 10)) ''assign''"
    unfolding extensions_countStore
    by (simp add: untouched_def computed_def doubled_def counterActions_def)
  have ms: "mergedInitialState (initialState (countStore 10)) ?iv = JObj [(''count'', JNum 5)]"
    by (simp add: countStore_def mergedInitialState_def defaultInitialValue_def isObject_def
        spread2_def)
  have nk: "''assign'' \<notin> stateKeys (mergedInitialState (initialState (countStore 10)) ?iv)"
    unfolding ms by (simp add: stateKeys_def)
  have lid: "localId (countStore 10) = 1"
    by (simp add: localId_def countStore_def)
  have av: "assign 1 (JObj [(''count'', JNum 5)]) (JObj [(''count'', JNum 7)])
        [JObj [(''count'', JNum 10)], JObj [(''count'', JNum 5)]]
      = [JObj [(''count'', JNum 10)], JObj [(''count'', JNum 7)]]"
    by (simp add: assign_def isObject_def immer_setState_def)
  from assign_merges_at_object_paths [where w = "countStore 10" and iv = ?iv
      and partial = "JObj [(''count'', JNum 7)]"
      and h = "[JObj [(''count'', JNum 10)], JObj [(''count'', JNum 5)]]"
      and init = JNull and nm = "[]" and ?h0.0 = "[]" and i = 0 and kvs = "[]" and p = "[]"
      and s = "[]", THEN r6, rule_format, OF conjI [OF reachable_countStore un],
      THEN conjunct2, rule_format, OF nk]
  have r5: "store_assign (fst (LocalProvider ?iv (countStore 10)))
         (JObj [(''count'', JNum 7)]) [JObj [(''count'', JNum 10)], JObj [(''count'', JNum 5)]]
       = Some [JObj [(''count'', JNum 10)], JObj [(''count'', JNum 7)]]"
    unfolding ms lid av .
  show ?thesis
    by (rule conjI [OF r1 conjI [OF r2a conjI [OF r2b conjI [OF r3 conjI [OF r4 r5]]]]])
qed

section \<open>The accessor node at a path\<close>

lemma all_nodes_self: "n \<in> set (all_nodes n)"
  by (cases n) simp

lemma all_nodes_child:
  "(k, c) \<in> set (children m) \<Longrightarrow> n \<in> set (all_nodes c) \<Longrightarrow> n \<in> set (all_nodes m)"
  by (cases m) force

lemma descend_all_nodes: "descend m ks = Some n \<Longrightarrow> n \<in> set (all_nodes m)"
proof (induction ks arbitrary: m)
  case Nil
  then show ?case by (simp add: all_nodes_self)
next
  case (Cons k ks)
  from Cons.prems obtain c where c: "map_of (children m) k = Some c" and d: "descend c ks = Some n"
    by (auto split: option.splits)
  from c have "(k, c) \<in> set (children m)" by (rule map_of_SomeD)
  then show ?case using Cons.IH [OF d] by (rule all_nodes_child)
qed

lemma store_node_in_store_nodes:
  assumes "store_node s p = Some n"
  shows "n \<in> set (store_nodes s)"
proof -
  from assms obtain k ks m where p: "p = k # ks" and m: "map_of s k = Some (MNode m)"
    and d: "descend m ks = Some n"
    by (auto simp: store_node_def split: list.splits option.splits member.splits)
  from m have "(k, MNode m) \<in> set s" by (rule map_of_SomeD)
  moreover from d have "n \<in> set (all_nodes m)" by (rule descend_all_nodes)
  ultimately show ?thesis
    by (force simp: store_nodes_def)
qed

lemma filter_distinct_key:
  "distinct (map f xs) \<Longrightarrow> x \<in> set xs \<Longrightarrow> filter (\<lambda>m. f m = f x) xs = [x]"
proof (induction xs)
  case Nil
  then show ?case by simp
next
  case (Cons y ys)
  from Cons.prems(1) have ny: "f y \<notin> f ` set ys" and d: "distinct (map f ys)" by simp_all
  show ?case
  proof (cases "x = y")
    case True
    from ny have "\<forall>m\<in>set ys. f m \<noteq> f y"
      by (metis imageI)
    then have "filter (\<lambda>m. f m = f y) ys = []"
      by (simp add: filter_empty_conv)
    with True show ?thesis by simp
  next
    case False
    with Cons.prems have x: "x \<in> set ys" by simp
    with ny have "f y \<noteq> f x" by (metis imageI)
    with Cons.IH [OF d x] show ?thesis by simp
  qed
qed

lemma distinct_api_createStore: "distinct (map fst (api (createStore init nm)))"
  unfolding api_createStore by (intro distinct_object_assign) simp

lemma node_paths_member:
  assumes wf: "wellFormed init" and mem: "(k, m) \<in> set (api (createStore init nm))"
  shows "distinct (map path (case m of MNode n \<Rightarrow> all_nodes n | _ \<Rightarrow> []))
    \<and> (\<forall>p\<in>set (map path (case m of MNode n \<Rightarrow> all_nodes n | _ \<Rightarrow> [])). p \<noteq> [] \<and> hd p = k)"
proof (cases m)
  case (MNode n0)
  from mem have "map_of (api (createStore init nm)) k = Some m"
    using distinct_api_createStore [of init nm] by simp
  with MNode obtain g v where init: "init = JObj g" and v: "(k, v) \<in> set g"
    and n0: "n0 = createNode 0 [k] v"
    using global_node_origin [of init nm k n0] by auto
  from wf init v have "wellFormed v" by force
  then have dp: "distinct (paths v)" by (rule distinct_paths)
  have e: "map path (all_nodes n0) = [k] # map ((#) k) (paths v)"
    unfolding n0 all_nodes_createNode by simp
  from dp have "distinct ([k] # map ((#) k) (paths v))"
    by (auto simp: distinct_map dest: paths_nonempty)
  with e MNode show ?thesis by auto
qed simp_all

lemma distinct_node_paths:
  assumes "wellFormed init"
  shows "distinct (map path (store_nodes (api (createStore init nm))))"
proof -
  have e: "map path (store_nodes s)
      = concat (map (\<lambda>(k, m). map path (case m of MNode n \<Rightarrow> all_nodes n | _ \<Rightarrow> [])) s)" for s
    by (simp add: store_nodes_def map_concat comp_def split_def)
  show ?thesis
    unfolding e
  proof (rule distinct_concat_keyed)
    show "distinct (map fst (api (createStore init nm)))"
      by (rule distinct_api_createStore)
  next
    fix k m assume "(k, m) \<in> set (api (createStore init nm))"
    from node_paths_member [OF assms this]
    show "distinct (map path (case m of MNode n \<Rightarrow> all_nodes n | _ \<Rightarrow> []))" by (rule conjunct1)
  next
    fix k m p assume "(k, m) \<in> set (api (createStore init nm))"
      and "p \<in> set (map path (case m of MNode n \<Rightarrow> all_nodes n | _ \<Rightarrow> []))"
    with node_paths_member [OF assms this(1)] show "p \<noteq> [] \<and> hd p = k" by blast
  qed
qed

lemma store_node_api_createStore:
  assumes "wellFormed init" and "p \<in> set (paths init)" and "hd p \<notin> apiNames"
  shows "store_node (api (createStore init nm)) p = Some (createNode 0 p (get_in init p))"
proof -
  from assms(3) have "store_node (api (createStore init nm)) p = store_node (fst (createInnerStore nm init [])) p"
    by (intro store_node_cong map_of_api_createStore)
  also have "\<dots> = Some (createNode 0 p (get_in init p))"
    using store_node_createInnerStore [OF assms(1,2), of nm "[]"] by simp
  finally show ?thesis .
qed

lemma store_node_api_hidden:
  assumes "hd p \<in> apiNames"
  shows "store_node (api (createStore init nm)) p = None"
proof (cases p)
  case Nil
  then show ?thesis by (simp add: store_node_def)
next
  case (Cons k ks)
  define apim where "apim = [(''extend'', MExtend), (''LocalProvider'', MLocalProvider),
      (''useLocalStore'', MUseLocalStore)]"
  from assms Cons have "k \<in> fst ` set apim"
    by (simp add: apiNames_def apim_def)
  then have "\<exists>v. (k, v) \<in> set apim
      \<and> map_of (object_assign (object_assign [] (fst (createInnerStore nm init []))) apim) k = Some v"
    by (rule map_of_object_assign_defined)
  then obtain v where v: "(k, v) \<in> set apim" and m: "map_of (api (createStore init nm)) k = Some v"
    unfolding api_createStore apim_def by blast
  from v have "v = MExtend \<or> v = MLocalProvider \<or> v = MUseLocalStore"
    by (auto simp: apim_def)
  with m Cons show ?thesis
    by (auto simp: store_node_def)
qed

text \<open>
  C3 (as amended). Let the state tree be well formed. For every reachable path whose
  top-level property is not one of the three names that \<^verbatim>\<open>createStore\<close> puts on the
  api after the store's own (\<^verbatim>\<open>extend\<close>, \<^verbatim>\<open>LocalProvider\<close>,
  \<^verbatim>\<open>useLocalStore\<close>), the store as created has exactly one accessor node of that
  path: the node found at the path. It is bound to the global instance and provides
  \<^verbatim>\<open>get\<close>, \<^verbatim>\<open>use\<close> and \<^verbatim>\<open>set\<close>, and \<^verbatim>\<open>assign\<close> when the initial
  value at the path is an object. Under one of the three names there is no accessor. In
  every world the store reaches, the node at a path is still there as long as no builder
  redefines the top-level property. Each of the root accessors \<^verbatim>\<open>get\<close>,
  \<^verbatim>\<open>set\<close>, \<^verbatim>\<open>use\<close> and \<^verbatim>\<open>assign\<close> is there when the state has no
  top-level property of its name and no builder redefines it. A property that \<^verbatim>\<open>computed\<close> defines is on the
  store an accessor that provides only \<^verbatim>\<open>get\<close> and \<^verbatim>\<open>use\<close>.
\<close>

theorem accessor_node_per_reachable_path:
  "(wellFormed init \<and> p \<in> set (paths init) \<and> hd p \<notin> apiNames \<longrightarrow>
      (\<exists>n. store_node (api (createStore init nm)) p = Some n
          \<and> filter (\<lambda>m. path m = p) (store_nodes (api (createStore init nm))) = [n]
          \<and> inst n = globalId \<and> path n = p
          \<and> node_methods n =
               {''get'', ''use'', ''set''} \<union> (if isObject (get_in init p) then {''assign''} else {})))
   \<and> (hd p \<in> apiNames \<longrightarrow> store_node (api (createStore init nm)) p = None)
   \<and> (reachable w \<and> wellFormed (initialState w) \<and> q \<in> set (paths (initialState w))
        \<and> hd q \<notin> apiNames \<and> untouched (extensions w) (hd q) \<longrightarrow>
      (\<exists>n. store_node (api w) q = Some n \<and> inst n = globalId \<and> path n = q
          \<and> node_methods n =
               {''get'', ''use'', ''set''}
                 \<union> (if isObject (get_in (initialState w) q) then {''assign''} else {})))
   \<and> (reachable w \<and> untouched (extensions w) ''get'' \<and> ''get'' \<notin> stateKeys (initialState w) \<longrightarrow>
        map_of (api w) ''get'' = Some (MGet globalId))
   \<and> (reachable w \<and> untouched (extensions w) ''set'' \<and> ''set'' \<notin> stateKeys (initialState w) \<longrightarrow>
        map_of (api w) ''set'' = Some (MSet globalId))
   \<and> (reachable w \<and> untouched (extensions w) ''use'' \<and> ''use'' \<notin> stateKeys (initialState w) \<longrightarrow>
        map_of (api w) ''use'' = Some (MUse globalId))
   \<and> (reachable w \<and> untouched (extensions w) ''assign'' \<and> ''assign'' \<notin> stateKeys (initialState w) \<longrightarrow>
        map_of (api w) ''assign'' = Some (MAssign globalId (initialState w)))
   \<and> (\<forall>k\<in>fst ` set (cb (applyExtensions (extensions w) (instances w) (api w))).
        \<exists>m. map_of (api (extend (computed cb) w)) k = Some m \<and> member_methods m = {''get'', ''use''})"
proof -
  let ?api = "api (createStore init nm)"
  have a: "\<exists>n. store_node ?api p = Some n
          \<and> filter (\<lambda>m. path m = p) (store_nodes ?api) = [n]
          \<and> inst n = globalId \<and> path n = p
          \<and> node_methods n =
               {''get'', ''use'', ''set''} \<union> (if isObject (get_in init p) then {''assign''} else {})"
    if wf: "wellFormed init" and p: "p \<in> set (paths init)" and hd: "hd p \<notin> apiNames"
  proof -
    let ?n = "createNode 0 p (get_in init p)"
    have sn: "store_node ?api p = Some ?n"
      by (rule store_node_api_createStore [OF wf p hd])
    then have "?n \<in> set (store_nodes ?api)"
      by (rule store_node_in_store_nodes)
    with distinct_node_paths [OF wf, of nm]
    have "filter (\<lambda>m. path m = path ?n) (store_nodes ?api) = [?n]"
      by (rule filter_distinct_key)
    then have "filter (\<lambda>m. path m = p) (store_nodes ?api) = [?n]"
      by simp
    with sn show ?thesis
      by (simp add: node_methods_createNode globalId_def)
  qed
  have b: "store_node ?api p = None" if "hd p \<in> apiNames"
    using that by (rule store_node_api_hidden)
  have c: "\<exists>n. store_node (api w) q = Some n \<and> inst n = globalId \<and> path n = q
          \<and> node_methods n =
               {''get'', ''use'', ''set''}
                 \<union> (if isObject (get_in (initialState w) q) then {''assign''} else {})"
    if re: "reachable w" and wf: "wellFormed (initialState w)"
      and q: "q \<in> set (paths (initialState w))" and hd: "hd q \<notin> apiNames"
      and un: "untouched (extensions w) (hd q)"
  proof -
    from reachable_inv [OF re] un
    have "map_of (api w) (hd q) = map_of (api (createStore (initialState w) (name w))) (hd q)"
      by (simp add: agreeOutside_def)
    then have "store_node (api w) q = store_node (api (createStore (initialState w) (name w))) q"
      by (rule store_node_cong)
    also have "\<dots> = Some (createNode 0 q (get_in (initialState w) q))"
      by (rule store_node_api_createStore [OF wf q hd])
    finally show ?thesis
      by (simp add: node_methods_createNode globalId_def)
  qed
  have d: "reachable w \<and> untouched (extensions w) ''get'' \<and> ''get'' \<notin> stateKeys (initialState w) \<longrightarrow>
        map_of (api w) ''get'' = Some (MGet globalId)"
    "reachable w \<and> untouched (extensions w) ''set'' \<and> ''set'' \<notin> stateKeys (initialState w) \<longrightarrow>
        map_of (api w) ''set'' = Some (MSet globalId)"
    "reachable w \<and> untouched (extensions w) ''use'' \<and> ''use'' \<notin> stateKeys (initialState w) \<longrightarrow>
        map_of (api w) ''use'' = Some (MUse globalId)"
    "reachable w \<and> untouched (extensions w) ''assign'' \<and> ''assign'' \<notin> stateKeys (initialState w) \<longrightarrow>
        map_of (api w) ''assign'' = Some (MAssign globalId (initialState w))"
    by (simp_all add: map_of_api_reachable_root apiNames_def)
  have e: "\<exists>m. map_of (api (extend (computed cb) w)) k = Some m \<and> member_methods m = {''get'', ''use''}"
    if "k \<in> fst ` set (cb (applyExtensions (extensions w) (instances w) (api w)))" for k
  proof -
    let ?acc = "applyExtensions (extensions w) (instances w) (api w)"
    from that have "k \<in> fst ` set (computed cb ?acc (instances w))"
      by (force simp: computed_def)
    from extend_defines [of k "computed cb" w, OF this] obtain v where v: "(k, v) \<in> set (computed cb ?acc (instances w))"
      and m: "map_of (api (extend (computed cb) w)) k = Some v"
      by blast
    from v have "member_methods v = {''get'', ''use''}"
      by (auto simp: computed_def member_methods_def)
    with m show ?thesis by simp
  qed
  from a have a': "wellFormed init \<and> p \<in> set (paths init) \<and> hd p \<notin> apiNames \<longrightarrow>
      (\<exists>n. store_node ?api p = Some n
          \<and> filter (\<lambda>m. path m = p) (store_nodes ?api) = [n]
          \<and> inst n = globalId \<and> path n = p
          \<and> node_methods n =
               {''get'', ''use'', ''set''} \<union> (if isObject (get_in init p) then {''assign''} else {}))"
    by blast
  from b have b': "hd p \<in> apiNames \<longrightarrow> store_node ?api p = None"
    by blast
  from c have c': "reachable w \<and> wellFormed (initialState w) \<and> q \<in> set (paths (initialState w))
        \<and> hd q \<notin> apiNames \<and> untouched (extensions w) (hd q) \<longrightarrow>
      (\<exists>n. store_node (api w) q = Some n \<and> inst n = globalId \<and> path n = q
          \<and> node_methods n =
               {''get'', ''use'', ''set''}
                 \<union> (if isObject (get_in (initialState w) q) then {''assign''} else {}))"
    by blast
  from e have e': "\<forall>k\<in>fst ` set (cb (applyExtensions (extensions w) (instances w) (api w))).
        \<exists>m. map_of (api (extend (computed cb) w)) k = Some m \<and> member_methods m = {''get'', ''use''}"
    by blast
  show ?thesis
    by (rule conjI [OF a' conjI [OF b' conjI [OF c' conjI [OF d(1) conjI [OF d(2) conjI [OF d(3)
          conjI [OF d(4) e']]]]]]])
qed


text \<open>
  The store of the documentation: the leaf \<^verbatim>\<open>address.city\<close> and the object path
  \<^verbatim>\<open>address\<close>; the profile store after its two builders, with the node
  \<^verbatim>\<open>user.name\<close> and the root \<^verbatim>\<open>assign\<close>; and the computed \<^verbatim>\<open>doubled\<close> of the
  counter store.
\<close>

theorem accessor_node_per_reachable_path_witness:
  "(\<exists>n. store_node (api (createStore userState ''user'')) [''address'', ''city''] = Some n
        \<and> filter (\<lambda>m. path m = [''address'', ''city''])
              (store_nodes (api (createStore userState ''user''))) = [n]
        \<and> node_methods n = {''get'', ''use'', ''set''})
   \<and> (\<exists>n. store_node (api (createStore userState ''user'')) [''address''] = Some n
        \<and> node_methods n = {''get'', ''use'', ''set'', ''assign''})
   \<and> (\<exists>n. store_node (api profileStore) [''user'', ''name''] = Some n \<and> inst n = globalId
        \<and> node_methods n = {''get'', ''use'', ''set''})
   \<and> map_of (api profileStore) ''assign'' = Some (MAssign globalId profileState)
   \<and> (\<exists>m. map_of (api (extend (computed doubled) (createStore (JObj [(''count'', JNum 10)]) ''count'')))
              ''doubled'' = Some m
        \<and> member_methods m = {''get'', ''use''})"
proof -
  let ?c = "createStore (JObj [(''count'', JNum 10)]) ''count''"
  have wf: "wellFormed userState"
    by (simp add: userState_def)
  have p: "[''address'', ''city''] \<in> set (paths userState)" "[''address''] \<in> set (paths userState)"
    by (simp_all add: userState_def)
  have hd: "hd [''address'', ''city''] \<notin> apiNames" "hd [''address''] \<notin> apiNames"
    "hd [''user'', ''name''] \<notin> apiNames"
    by (simp_all add: apiNames_def)
  have g: "\<not> isObject (get_in userState [''address'', ''city''])"
    "isObject (get_in userState [''address''])"
    "\<not> isObject (get_in profileState [''user'', ''name''])"
    by (simp_all add: userState_def profileState_def isObject_def)
  have ex: "extensions profileStore = [computed doubled, counterActions]"
    and ini: "initialState profileStore = profileState"
    by (simp_all add: profileStore_def)
  have wp: "wellFormed (initialState profileStore)"
    "[''user'', ''name''] \<in> set (paths (initialState profileStore))"
    unfolding ini by (simp_all add: profileState_def)
  have un: "untouched (extensions profileStore) (hd [''user'', ''name''])"
    unfolding ex by (simp add: untouched_def computed_def doubled_def counterActions_def)
  have dk: "''doubled'' \<in> fst ` set (doubled (applyExtensions (extensions ?c) (instances ?c) (api ?c)))"
    by (simp add: doubled_def)
  note t1 = accessor_node_per_reachable_path [where init = userState and nm = "''user''"
      and p = "[''address'', ''city'']" and w = profileStore and q = "[''user'', ''name'']"
      and cb = doubled]
  note t2 = accessor_node_per_reachable_path [where init = userState and nm = "''user''"
      and p = "[''address'']" and w = ?c and q = "[]" and cb = doubled]
  note r3 = conjunct2 [THEN conjunct2]
  note r7 = r3 [THEN r3, THEN r3, THEN conjunct2]
  from t1 [THEN conjunct1] wf p(1) hd(1) g(1)
  have a: "\<exists>n. store_node (api (createStore userState ''user'')) [''address'', ''city''] = Some n
        \<and> filter (\<lambda>m. path m = [''address'', ''city''])
              (store_nodes (api (createStore userState ''user''))) = [n]
        \<and> node_methods n = {''get'', ''use'', ''set''}"
    by auto
  from t2 [THEN conjunct1] wf p(2) hd(2) g(2)
  have b: "\<exists>n. store_node (api (createStore userState ''user'')) [''address''] = Some n
        \<and> node_methods n = {''get'', ''use'', ''set'', ''assign''}"
    by auto
  from t1 [THEN r3, THEN conjunct1] reachable_profileStore wp hd(3) un g(3)
  have c: "\<exists>n. store_node (api profileStore) [''user'', ''name''] = Some n \<and> inst n = globalId
        \<and> node_methods n = {''get'', ''use'', ''set''}"
    unfolding ini by auto
  have k: "''assign'' \<notin> stateKeys (initialState profileStore)"
    unfolding ini by (simp add: profileState_def stateKeys_def)
  have ua: "untouched (extensions profileStore) ''assign''"
    unfolding ex by (simp add: untouched_def computed_def doubled_def counterActions_def)
  from t1 [THEN r3, THEN r3, THEN r3, THEN conjunct1, rule_format,
      OF conjI [OF reachable_profileStore conjI [OF ua k]]]
  have d: "map_of (api profileStore) ''assign'' = Some (MAssign globalId profileState)"
    unfolding ini .
  from t2 [THEN r7, rule_format, OF dk]
  have e: "\<exists>m. map_of (api (extend (computed doubled) ?c)) ''doubled'' = Some m
        \<and> member_methods m = {''get'', ''use''}" .
  show ?thesis
    by (rule conjI [OF a conjI [OF b conjI [OF c conjI [OF d e]]]])
qed

text \<open>
  C3 as stated fails on \<^verbatim>\<open>store({ count: 10, extend: 1 })\<close>: \<^verbatim>\<open>extend\<close> is a
  reachable path of the state, and the store has no accessor node of that path, because
  \<^verbatim>\<open>{ ...globalStore, extend, LocalProvider, useLocalStore }\<close> puts the api's own
  \<^verbatim>\<open>extend\<close> in its place.
\<close>

theorem state_property_named_extend_has_no_accessor:
  "[''extend''] \<in> set (paths (JObj [(''count'', JNum 10), (''extend'', JNum 1)]))
   \<and> map_of (api (createStore (JObj [(''count'', JNum 10), (''extend'', JNum 1)]) ''s'')) ''extend''
        = Some MExtend
   \<and> store_node (api (createStore (JObj [(''count'', JNum 10), (''extend'', JNum 1)]) ''s'')) [''extend'']
        = None
   \<and> filter (\<lambda>m. path m = [''extend''])
        (store_nodes (api (createStore (JObj [(''count'', JNum 10), (''extend'', JNum 1)]) ''s''))) = []"
proof -
  let ?i = "JObj [(''count'', JNum 10), (''extend'', JNum 1)]"
  have a: "api (createStore ?i ''s'') =
      [(''storeName'', MStoreName ''s''), (''immerStoreApi'', MImmerStoreApi 0),
       (''set'', MSet 0), (''get'', MGet 0), (''use'', MUse 0), (''assign'', MAssign 0 ?i),
       (''count'', MNode (Node 0 [''count''] False [])), (''extend'', MExtend),
       (''LocalProvider'', MLocalProvider), (''useLocalStore'', MUseLocalStore)]"
    by (simp add: createStore_def createInnerStore_def generateInnerSelectors_def getState_def)
  have b: "map_of (api (createStore ?i ''s'')) ''extend'' = Some MExtend"
    unfolding a by simp
  have c: "store_node (api (createStore ?i ''s'')) [''extend''] = None"
    unfolding a by (simp add: store_node_def)
  have d: "filter (\<lambda>m. path m = [''extend'']) (store_nodes (api (createStore ?i ''s''))) = []"
    unfolding a by (simp add: store_nodes_def)
  from b c d show ?thesis by simp
qed

end
